theory Spec2Isabelle
  imports Main "HOL-Library.Word" "HOL-Library.Sublist"
begin

section \<open>The asynchronous local ABCI client (package concurrent)\<close>

text \<open>
  The client of \<^verbatim>\<open>server/concurrent\<close> puts a lock protocol between the consensus
  engine and the application. Its methods, its two ordered workers and the closures it
  hands to the pre-validation pools are goroutines that interleave; the model below is
  an interleaving semantics. Every goroutine is a list of primitive actions, one per
  statement of the source, and a step runs the first action of one goroutine on the
  shared state. A step can block (a lock that is held, a full or empty channel, a
  wait group that is not zero) or panic (the Go runtime's fatal errors).

  Outside the model: \<^verbatim>\<open>OnStop\<close> (the model is the client between \<^verbatim>\<open>OnStart\<close> and
  \<^verbatim>\<open>OnStop\<close>), the logging calls, and \<^verbatim>\<open>Flush\<close>, \<^verbatim>\<open>Echo\<close> and \<^verbatim>\<open>Error\<close>, which
  touch neither a lock nor the application.
\<close>

subsection \<open>Data\<close>

type_synonym bytes = "8 word list"

text \<open>The three mutexes of the lock set, and the two ordered queues.\<close>

datatype mutex = commitLock | checkTxLowLock | checkTxMidLock

datatype queue = checkTxQueue | deliverTxQueue

datatype pool = checkTxPool | deliverTxPool

text \<open>The methods of the application (\<^verbatim>\<open>ApplicationCC\<close>).\<close>

datatype call =
    CheckTx | DeliverTx | PreCheckTx | PreDeliverTx | ReCheckTx
  | Info | SetOption | Query | Commit | InitChain | BeginBlock | EndBlock

text \<open>
  The kinds of ABCI message: \<^verbatim>\<open>types.ToRequestCheckTx\<close> is \<open>Request MsgCheckTx\<close>,
  \<^verbatim>\<open>types.ToResponseCheckTx\<close> is \<open>Response MsgCheckTx\<close>, and so on.
\<close>

datatype msg =
    MsgInfo | MsgSetOption | MsgDeliverTx | MsgCheckTx | MsgQuery
  | MsgCommit | MsgInitChain | MsgBeginBlock | MsgEndBlock

text \<open>
  What an application method returns: the ABCI result code and the rest of the
  result. \<^verbatim>\<open>IsOK\<close> is \<^verbatim>\<open>Code == CodeTypeOK\<close>, and \<^verbatim>\<open>CodeTypeOK\<close> is 0.
\<close>

datatype result = Result (code: "32 word") (payload: bytes)

definition IsOK :: "result \<Rightarrow> bool" where
  "IsOK r = (code r = 0)"

datatype request = Request msg bytes

datatype response = Response msg result

text \<open>
  A \<^verbatim>\<open>WorkItem\<close>: the \<^verbatim>\<open>ReqRes\<close> (request, response slot, done mark, per-request
  callback) and the mutex that is the ordering gate. Every invocation of a method owns
  one such frame, numbered in the order of invocation; \<open>arg\<close> is the argument of the
  invocation (the transaction, or the encoded request).
\<close>

record item =
  arg :: bytes
  req :: "request option"
  resp :: "response option"
  is_done :: bool
  cb :: bool
  mtx :: bool

definition new_item :: "bytes \<Rightarrow> item" where
  "new_item x = \<lparr>arg = x, req = None, resp = None, is_done = False, cb = False, mtx = False\<rparr>"

text \<open>
  Goroutines: the host's invocation number \<open>n\<close> of a method, the closure that
  invocation scheduled on a pool, and the two ordered workers.
\<close>

datatype tid = Host nat | Task nat | Worker queue

datatype cond = ResponseIsNil | ResNotOK

datatype action =
    NewReqRes msg
  | NewMtx
  | MtxLock
  | MtxUnlock
  | Lock mutex
  | Unlock mutex
  | RWLock
  | RWUnlock
  | RLock
  | RUnlock
  | Send queue
  | Recv queue
  | WgAdd
  | WgDone
  | WgWait
  | Schedule pool
  | AppCall call
  | AppRet call
  | When cond nat
  | SetResponse msg
  | ReqResDone
  | ReqCallback
  | GlobalCallback
  | Callback msg
  | SetCallback
  | Again
  | Return

text \<open>The methods of the client that the host invokes.\<close>

datatype api =
    SetResponseCallback
  | InfoAsync | SetOptionAsync | DeliverTxAsync | CheckTxAsync | ReCheckTxAsync
  | QueryAsync | CommitAsync | InitChainAsync | BeginBlockAsync | EndBlockAsync
  | InfoSync | SetOptionSync | DeliverTxSync | CheckTxSync | QuerySync
  | CommitSync | InitChainSync | BeginBlockSync | EndBlockSync

text \<open>
  The trace of a run, in the order things happen: the invocations, every action a
  goroutine has executed (with the frame it worked on), what the application returned,
  and the callbacks that fired with their arguments.
\<close>

datatype event =
    Invoked nat api
  | Did tid action nat
  | Returned tid call nat result
  | ReqCb tid nat "response option"
  | GlobCb tid nat "request option" "response option"

datatype fault = FatalUnlock | NegativeWgCommit | NegativeReqRes | NilCallback

datatype 'a outcome = Blocked | Panic fault | Next 'a

record 'a state =
  cont :: "tid \<Rightarrow> action list"
  res :: "tid \<Rightarrow> result"
  wcur :: "queue \<Rightarrow> nat"
  items :: "nat \<Rightarrow> item"
  nitems :: nat
  chan :: "queue \<Rightarrow> nat list"
  mutexes :: "mutex \<Rightarrow> bool"
  rw_writer :: bool
  rw_readers :: nat
  wgCommit :: nat
  Callback_set :: bool
  appstate :: 'a
  trace :: "event list"

subsection \<open>The source, statement by statement\<close>

definition WorkerPoolSize :: nat where "WorkerPoolSize = 16"
definition WorkerPoolSpawn :: nat where "WorkerPoolSpawn = 4"
definition WorkerPoolQueue :: nat where "WorkerPoolQueue = 16"

text \<open>\<^verbatim>\<open>make(chan WorkItem, WorkerPoolQueue*2)\<close>, for both queues.\<close>

definition capacity :: "queue \<Rightarrow> nat" where
  "capacity q = WorkerPoolQueue * 2"

text \<open>
  A deferred unlock runs when the function returns, after the expression of the
  \<^verbatim>\<open>return\<close> statement (the call of \<^verbatim>\<open>app.callback\<close>) is evaluated, the last
  deferred first.
\<close>

fun body :: "api \<Rightarrow> action list" where
  "body SetResponseCallback = [RWLock, SetCallback, RWUnlock, Return]"
| "body InfoAsync = [RLock, AppCall Info, AppRet Info, RUnlock, Callback MsgInfo, Return]"
| "body SetOptionAsync =
    [RWLock, AppCall SetOption, AppRet SetOption, Callback MsgSetOption, RWUnlock, Return]"
| "body DeliverTxAsync =
    [NewReqRes MsgDeliverTx, NewMtx, MtxLock,
     Send deliverTxQueue,
     WgAdd,
     Schedule deliverTxPool,
     Return]"
| "body CheckTxAsync =
    [NewReqRes MsgCheckTx, NewMtx, MtxLock,
     Lock checkTxLowLock,
     Lock checkTxMidLock,
     Lock commitLock,
     Unlock checkTxMidLock,
     Send checkTxQueue,
     WgAdd,
     Unlock commitLock,
     Unlock checkTxLowLock,
     Schedule checkTxPool,
     Return]"
| "body ReCheckTxAsync =
    [RWLock, AppCall ReCheckTx, AppRet ReCheckTx, Callback MsgCheckTx, RWUnlock, Return]"
| "body QueryAsync = [RLock, AppCall Query, AppRet Query, RUnlock, Callback MsgQuery, Return]"
| "body CommitAsync =
    [Lock checkTxMidLock,
     Lock commitLock,
     Unlock checkTxMidLock,
     WgWait,
     RWLock,
     AppCall Commit, AppRet Commit,
     Callback MsgCommit,
     RWUnlock, Unlock commitLock, Return]"
| "body InitChainAsync =
    [RWLock, AppCall InitChain, AppRet InitChain, Callback MsgInitChain, RWUnlock, Return]"
| "body BeginBlockAsync =
    [RWLock, AppCall BeginBlock, AppRet BeginBlock, Callback MsgBeginBlock, RWUnlock, Return]"
| "body EndBlockAsync =
    [Lock checkTxMidLock,
     Lock commitLock,
     Unlock checkTxMidLock,
     WgWait,
     RWLock,
     AppCall EndBlock, AppRet EndBlock,
     Callback MsgEndBlock,
     RWUnlock, Unlock commitLock, Return]"
| "body InfoSync = [RLock, AppCall Info, AppRet Info, RUnlock, Return]"
| "body SetOptionSync = [RWLock, AppCall SetOption, AppRet SetOption, RWUnlock, Return]"
| "body DeliverTxSync = [RWLock, AppCall DeliverTx, AppRet DeliverTx, RWUnlock, Return]"
| "body CheckTxSync = [RWLock, AppCall CheckTx, AppRet CheckTx, RWUnlock, Return]"
| "body QuerySync = [RLock, AppCall Query, AppRet Query, RUnlock, Return]"
| "body CommitSync =
    [Lock checkTxMidLock,
     Lock commitLock,
     Unlock checkTxMidLock,
     RWLock,
     AppCall Commit, AppRet Commit,
     RWUnlock, Unlock commitLock, Return]"
| "body InitChainSync = [RWLock, AppCall InitChain, AppRet InitChain, RWUnlock, Return]"
| "body BeginBlockSync = [RWLock, AppCall BeginBlock, AppRet BeginBlock, RWUnlock, Return]"
| "body EndBlockSync =
    [Lock checkTxMidLock,
     Lock commitLock,
     Unlock checkTxMidLock,
     WgWait,
     RWLock,
     AppCall EndBlock, AppRet EndBlock,
     RWUnlock, Unlock commitLock, Return]"

text \<open>
  The closures of \<^verbatim>\<open>CheckTxAsync\<close> and \<^verbatim>\<open>DeliverTxAsync\<close>: \<^verbatim>\<open>defer mtx.Unlock()\<close>,
  the pre-validation, and the response slot written when the result is not OK.
\<close>

fun closure :: "pool \<Rightarrow> action list" where
  "closure checkTxPool =
    [AppCall PreCheckTx, AppRet PreCheckTx, When ResNotOK 1, SetResponse MsgCheckTx, MtxUnlock]"
| "closure deliverTxPool =
    [AppCall PreDeliverTx, AppRet PreDeliverTx, When ResNotOK 1, SetResponse MsgDeliverTx,
     MtxUnlock]"

text \<open>\<^verbatim>\<open>checkTxWorker\<close> and \<^verbatim>\<open>deliverTxWorker\<close>: one turn of the loop over the queue.\<close>

definition checkTxWorker :: "action list" where
  "checkTxWorker =
    [Recv checkTxQueue,
     MtxLock, MtxUnlock,
     RWLock,
     When ResponseIsNil 3, AppCall CheckTx, AppRet CheckTx, SetResponse MsgCheckTx,
     ReqResDone,
     WgDone,
     ReqCallback,
     GlobalCallback,
     RWUnlock,
     Again]"

definition deliverTxWorker :: "action list" where
  "deliverTxWorker =
    [Recv deliverTxQueue,
     MtxLock, MtxUnlock,
     RWLock,
     When ResponseIsNil 3, AppCall DeliverTx, AppRet DeliverTx, SetResponse MsgDeliverTx,
     ReqResDone,
     WgDone,
     ReqCallback,
     GlobalCallback,
     RWUnlock,
     Again]"

fun worker :: "queue \<Rightarrow> action list" where
  "worker checkTxQueue = checkTxWorker"
| "worker deliverTxQueue = deliverTxWorker"

subsection \<open>The semantics of the actions\<close>

text \<open>The frame an action of goroutine \<open>t\<close> works on.\<close>

fun cur :: "'a state \<Rightarrow> tid \<Rightarrow> nat" where
  "cur s (Host n) = n"
| "cur s (Task n) = n"
| "cur s (Worker q) = wcur s q"

definition upd_item :: "nat \<Rightarrow> (item \<Rightarrow> item) \<Rightarrow> 'a state \<Rightarrow> 'a state" where
  "upd_item i f s = s\<lparr>items := (items s)(i := f (items s i))\<rparr>"

definition emit :: "event \<Rightarrow> 'a state \<Rightarrow> 'a state" where
  "emit e s = s\<lparr>trace := trace s @ [e]\<rparr>"

fun holds :: "cond \<Rightarrow> 'a state \<Rightarrow> tid \<Rightarrow> bool" where
  "holds ResponseIsNil s t = (resp (items s (cur s t)) = None)"
| "holds ResNotOK s t = (\<not> IsOK (res s t))"

text \<open>
  \<open>A\<close> is the application: what method \<open>c\<close> returns on an argument in an application
  state, and the state it leaves. A call is two actions, its entry and its return, so
  that calls of different goroutines can overlap. The pools are not under \<^verbatim>\<open>src/\<close>.

  Modelled from the spec: \<^verbatim>\<open>pool.Schedule\<close>, of the package \<^verbatim>\<open>pool\<close>, starts the
  closure as a task of its own, which runs with no ordering guarantee relative to
  other tasks.
\<close>

fun exec :: "(call \<Rightarrow> 'a \<Rightarrow> bytes \<Rightarrow> 'a \<times> result) \<Rightarrow> tid \<Rightarrow> action \<Rightarrow> 'a state \<Rightarrow> 'a state outcome"
where
  "exec A t (NewReqRes m) s =
    Next (upd_item (cur s t)
      (\<lambda>i. i\<lparr>req := Some (Request m (arg i)), resp := None, is_done := False, cb := False\<rparr>) s)"
| "exec A t NewMtx s = Next (upd_item (cur s t) (\<lambda>i. i\<lparr>mtx := False\<rparr>) s)"
| "exec A t MtxLock s =
    (if mtx (items s (cur s t)) then Blocked
     else Next (upd_item (cur s t) (\<lambda>i. i\<lparr>mtx := True\<rparr>) s))"
| "exec A t MtxUnlock s =
    (if mtx (items s (cur s t)) then Next (upd_item (cur s t) (\<lambda>i. i\<lparr>mtx := False\<rparr>) s)
     else Panic FatalUnlock)"
| "exec A t (Lock m) s =
    (if mutexes s m then Blocked else Next (s\<lparr>mutexes := (mutexes s)(m := True)\<rparr>))"
| "exec A t (Unlock m) s =
    (if mutexes s m then Next (s\<lparr>mutexes := (mutexes s)(m := False)\<rparr>) else Panic FatalUnlock)"
| "exec A t RWLock s =
    (if rw_writer s \<or> 0 < rw_readers s then Blocked else Next (s\<lparr>rw_writer := True\<rparr>))"
| "exec A t RWUnlock s =
    (if rw_writer s then Next (s\<lparr>rw_writer := False\<rparr>) else Panic FatalUnlock)"
| "exec A t RLock s =
    (if rw_writer s then Blocked else Next (s\<lparr>rw_readers := Suc (rw_readers s)\<rparr>))"
| "exec A t RUnlock s =
    (if rw_readers s = 0 then Panic FatalUnlock else Next (s\<lparr>rw_readers := rw_readers s - 1\<rparr>))"
| "exec A t (Send q) s =
    (if capacity q \<le> length (chan s q) then Blocked
     else Next (s\<lparr>chan := (chan s)(q := chan s q @ [cur s t])\<rparr>))"
| "exec A t (Recv q) s =
    (case chan s q of
       [] \<Rightarrow> Blocked
     | i # rest \<Rightarrow> Next (s\<lparr>chan := (chan s)(q := rest), wcur := (wcur s)(q := i)\<rparr>))"
| "exec A t WgAdd s = Next (s\<lparr>wgCommit := Suc (wgCommit s)\<rparr>)"
| "exec A t WgDone s =
    (if wgCommit s = 0 then Panic NegativeWgCommit
     else Next (s\<lparr>wgCommit := wgCommit s - 1\<rparr>))"
| "exec A t WgWait s = (if wgCommit s = 0 then Next s else Blocked)"
| "exec A t (Schedule p) s = Next (s\<lparr>cont := (cont s)(Task (cur s t) := closure p)\<rparr>)"
| "exec A t (AppCall c) s = Next s"
| "exec A t (AppRet c) s =
    (case A c (appstate s) (arg (items s (cur s t))) of
       (a', r) \<Rightarrow>
         Next (emit (Returned t c (cur s t) r) (s\<lparr>appstate := a', res := (res s)(t := r)\<rparr>)))"
| "exec A t (When c n) s =
    (if holds c s t then Next s else Next (s\<lparr>cont := (cont s)(t := drop n (cont s t))\<rparr>))"
| "exec A t (SetResponse m) s =
    Next (upd_item (cur s t) (\<lambda>i. i\<lparr>resp := Some (Response m (res s t))\<rparr>) s)"
| "exec A t ReqResDone s =
    (if is_done (items s (cur s t)) then Panic NegativeReqRes
     else Next (upd_item (cur s t) (\<lambda>i. i\<lparr>is_done := True\<rparr>) s))"
| "exec A t ReqCallback s =
    (if cb (items s (cur s t))
     then Next (emit (ReqCb t (cur s t) (resp (items s (cur s t)))) s)
     else Next s)"
| "exec A t GlobalCallback s =
    (if Callback_set s
     then Next (emit (GlobCb t (cur s t) (req (items s (cur s t))) (resp (items s (cur s t)))) s)
     else Panic NilCallback)"
| "exec A t (Callback m) s =
    (if Callback_set s
     then Next (emit
       (GlobCb t (cur s t) (Some (Request m (arg (items s (cur s t)))))
          (Some (Response m (res s t))))
       (upd_item (cur s t)
          (\<lambda>i. i\<lparr>req := Some (Request m (arg i)), resp := Some (Response m (res s t)),
                  is_done := True\<rparr>) s))
     else Panic NilCallback)"
| "exec A t SetCallback s = Next (s\<lparr>Callback_set := True\<rparr>)"
| "exec A t Again s =
    Next (s\<lparr>cont := (cont s)(t := (case t of Worker q \<Rightarrow> worker q | _ \<Rightarrow> []))\<rparr>)"
| "exec A t Return s = Next s"

text \<open>
  What can happen next: the host invokes a method, the host attaches a per-request
  callback to a handle a method has returned, or a goroutine runs its next action.
\<close>

datatype label = Invoke api bytes | Attach nat | Run tid

fun step :: "(call \<Rightarrow> 'a \<Rightarrow> bytes \<Rightarrow> 'a \<times> result) \<Rightarrow> 'a state \<Rightarrow> label \<Rightarrow> 'a state outcome"
where
  "step A s (Invoke m x) =
    Next (emit (Invoked (nitems s) m)
      (s\<lparr>items := (items s)(nitems s := new_item x), nitems := Suc (nitems s),
         cont := (cont s)(Host (nitems s) := body m)\<rparr>))"
| "step A s (Attach n) =
    (if n < nitems s \<and> cont s (Host n) = [] then Next (upd_item n (\<lambda>i. i\<lparr>cb := True\<rparr>) s)
     else Blocked)"
| "step A s (Run t) =
    (case cont s t of
       [] \<Rightarrow> Blocked
     | a # k \<Rightarrow>
        (case exec A t a (s\<lparr>cont := (cont s)(t := k)\<rparr>) of
           Next s' \<Rightarrow> Next (emit (Did t a (cur s' t)) s')
         | Blocked \<Rightarrow> Blocked
         | Panic f \<Rightarrow> Panic f))"

fun run :: "(call \<Rightarrow> 'a \<Rightarrow> bytes \<Rightarrow> 'a \<times> result) \<Rightarrow> 'a state \<Rightarrow> label list \<Rightarrow> 'a state outcome"
where
  "run A s [] = Next s"
| "run A s (l # ls) =
    (case step A s l of
       Next s' \<Rightarrow> run A s' ls
     | Blocked \<Rightarrow> Blocked
     | Panic f \<Rightarrow> Panic f)"

text \<open>
  The client after \<^verbatim>\<open>NewAsyncLocalClient\<close> and \<^verbatim>\<open>OnStart\<close>: fresh locks, empty queues,
  no callback, both workers at the head of their loops.
\<close>

definition init :: "'a \<Rightarrow> 'a state" where
  "init a =
    \<lparr>cont = (\<lambda>t. case t of Worker q \<Rightarrow> worker q | _ \<Rightarrow> []),
     res = (\<lambda>t. Result 0 []),
     wcur = (\<lambda>q. 0),
     items = (\<lambda>n. new_item []),
     nitems = 0,
     chan = (\<lambda>q. []),
     mutexes = (\<lambda>m. False),
     rw_writer = False,
     rw_readers = 0,
     wgCommit = 0,
     Callback_set = False,
     appstate = a,
     trace = []\<rparr>"

definition reachable :: "(call \<Rightarrow> 'a \<Rightarrow> bytes \<Rightarrow> 'a \<times> result) \<Rightarrow> 'a \<Rightarrow> 'a state \<Rightarrow> bool" where
  "reachable A a s = (\<exists>ls. run A (init a) ls = Next s)"

text \<open>
  The state a schedule leads to, as a total function for concrete runs: \<open>completes\<close>
  says that no step of the schedule blocks or panics.
\<close>

definition completes :: "(call \<Rightarrow> 'a \<Rightarrow> bytes \<Rightarrow> 'a \<times> result) \<Rightarrow> 'a \<Rightarrow> label list \<Rightarrow> bool" where
  "completes A a ls = (case run A (init a) ls of Next s \<Rightarrow> True | Blocked \<Rightarrow> False | Panic f \<Rightarrow> False)"

definition after :: "(call \<Rightarrow> 'a \<Rightarrow> bytes \<Rightarrow> 'a \<times> result) \<Rightarrow> 'a \<Rightarrow> label list \<Rightarrow> 'a state" where
  "after A a ls = (case run A (init a) ls of Next s \<Rightarrow> s | Blocked \<Rightarrow> init a | Panic f \<Rightarrow> init a)"

subsection \<open>Construction\<close>

text \<open>
  An application value: the methods its dynamic type has, and what they do.

  Modelled from the spec: the interface \<^verbatim>\<open>ApplicationCC\<close> is declared in a file of
  the package that is not under \<^verbatim>\<open>src/\<close>. Its capability set is validate,
  pre-validate, apply, pre-apply, query, info, set-option, init-chain, begin-block,
  end-block, commit and re-validate.
\<close>

record 'a application =
  methods :: "call list"
  behaviour :: "call \<Rightarrow> 'a \<Rightarrow> bytes \<Rightarrow> 'a \<times> result"

definition ApplicationCC :: "call list" where
  "ApplicationCC =
    [CheckTx, PreCheckTx, DeliverTx, PreDeliverTx, Query, Info, SetOption, InitChain,
     BeginBlock, EndBlock, Commit, ReCheckTx]"

text \<open>The type assertion \<^verbatim>\<open>app.(ApplicationCC)\<close>.\<close>

definition implements :: "'a application \<Rightarrow> call list \<Rightarrow> bool" where
  "implements app iface = list_all (\<lambda>c. c \<in> set (methods app)) iface"

text \<open>
  The client and its creator. \<open>'l\<close> is the lock set the creator allocates and every
  client it creates shares (\<^verbatim>\<open>rwLock\<close>, \<^verbatim>\<open>wgCommit\<close>, \<^verbatim>\<open>commitLock\<close>,
  \<^verbatim>\<open>checkTxLowLock\<close>, \<^verbatim>\<open>checkTxMidLock\<close>).
\<close>

record ('a, 'l) asyncLocalClient =
  Application :: "'a application"
  locks :: 'l

record ('a, 'l) localAsyncClientCreator =
  app :: "'a application"
  creator_locks :: 'l

datatype error = Error string

definition NewAsyncLocalClient :: "'a application \<Rightarrow> 'l \<Rightarrow> ('a, 'l) asyncLocalClient option" where
  "NewAsyncLocalClient ap l =
    (if \<not> implements ap ApplicationCC then None
     else Some \<lparr>Application = ap, locks = l\<rparr>)"

definition NewABCIClient ::
  "('a, 'l) localAsyncClientCreator \<Rightarrow> ('a, 'l) asyncLocalClient option \<times> error option" where
  "NewABCIClient l = (NewAsyncLocalClient (app l) (creator_locks l), None)"

subsection \<open>Observations on a trace\<close>

text \<open>The actions a goroutine has executed, in order.\<close>

definition act_of :: "tid \<Rightarrow> event \<Rightarrow> action option" where
  "act_of t e = (case e of Did t' a n \<Rightarrow> if t' = t then Some a else None | _ \<Rightarrow> None)"

definition acts :: "tid \<Rightarrow> event list \<Rightarrow> action list" where
  "acts t tr = List.map_filter (act_of t) tr"

text \<open>
  A host goroutine is always somewhere in the body of the method it was invoked with:
  what it has executed, followed by what it has left, is that body.
\<close>

definition inv_host :: "'a state \<Rightarrow> bool" where
  "inv_host s =
    ((\<forall>n m. Invoked n m \<in> set (trace s) \<longrightarrow>
        n < nitems s \<and> acts (Host n) (trace s) @ cont s (Host n) = body m) \<and>
     (\<forall>n. n < nitems s \<longrightarrow> (\<exists>m. Invoked n m \<in> set (trace s))) \<and>
     (\<forall>n. nitems s \<le> n \<longrightarrow> cont s (Host n) = [] \<and> acts (Host n) (trace s) = []))"

subsection \<open>The lock discipline of a continuation\<close>

text \<open>
  The mode in which the exclusivity lock guards a method of the application: write
  mode for what can change the application state, read mode for \<^verbatim>\<open>Info\<close> and
  \<^verbatim>\<open>Query\<close>; the pre-validations run in the pool with no lock.
\<close>

datatype lockmode = Exclusive | Shared | Unlocked

fun mode :: "call \<Rightarrow> lockmode" where
  "mode Info = Shared"
| "mode Query = Shared"
| "mode PreCheckTx = Unlocked"
| "mode PreDeliverTx = Unlocked"
| "mode c = Exclusive"

text \<open>
  Whether a goroutine holds the exclusivity lock can be read off what it has left to
  execute: it holds the lock in write mode when the next lock action ahead of it is
  \<^verbatim>\<open>Unlock\<close>, in read mode when that is \<^verbatim>\<open>RUnlock\<close>.
\<close>

fun is_rw :: "action \<Rightarrow> bool" where
  "is_rw RWLock = True"
| "is_rw RWUnlock = True"
| "is_rw RLock = True"
| "is_rw RUnlock = True"
| "is_rw Again = True"
| "is_rw a = False"

definition holdsW :: "action list \<Rightarrow> bool" where
  "holdsW k = (find is_rw k = Some RWUnlock)"

definition holdsR :: "action list \<Rightarrow> bool" where
  "holdsR k = (find is_rw k = Some RUnlock)"

text \<open>
  A continuation is well formed when every lock action is followed by its partner,
  every call of the application and the assignment of the callback stand under the
  lock of their mode, a conditional skips no lock action and nothing is scheduled
  under the lock.
\<close>

fun ok :: "action \<Rightarrow> action list \<Rightarrow> bool" where
  "ok RWLock k = holdsW k"
| "ok RWUnlock k = (\<not> holdsW k \<and> \<not> holdsR k)"
| "ok RLock k = holdsR k"
| "ok RUnlock k = (\<not> holdsW k \<and> \<not> holdsR k)"
| "ok (When c j) k = (\<not> list_ex is_rw (take j k))"
| "ok (Schedule p) k = (\<not> holdsW k \<and> \<not> holdsR k)"
| "ok (AppCall c) k = ((mode c = Exclusive \<longrightarrow> holdsW k) \<and> (mode c = Shared \<longrightarrow> holdsR k))"
| "ok (AppRet c) k = ((mode c = Exclusive \<longrightarrow> holdsW k) \<and> (mode c = Shared \<longrightarrow> holdsR k))"
| "ok SetCallback k = holdsW k"
| "ok a k = True"

fun wf :: "action list \<Rightarrow> bool" where
  "wf [] = True"
| "wf (a # k) = (ok a k \<and> wf k)"

definition inv_wf :: "'a state \<Rightarrow> bool" where
  "inv_wf s = ((\<forall>t. wf (cont s t)) \<and> (\<forall>n. \<not> list_ex is_rw (cont s (Task n))))"

definition inv_rw :: "'a state \<Rightarrow> bool" where
  "inv_rw s =
    (finite {t. holdsR (cont s t)} \<and> rw_readers s = card {t. holdsR (cont s t)} \<and>
     (rw_writer s \<longleftrightarrow> (\<exists>t. holdsW (cont s t))) \<and>
     (\<forall>t u. holdsW (cont s t) \<longrightarrow> holdsW (cont s u) \<longrightarrow> t = u) \<and>
     (rw_writer s \<longrightarrow> rw_readers s = 0))"

text \<open>What a goroutine is in the middle of: a call of the application or the assignment
  of the global callback, by the mode of the lock it needs.\<close>

fun inside :: "action list \<Rightarrow> lockmode" where
  "inside (AppRet c # k) = mode c"
| "inside (SetCallback # k) = Exclusive"
| "inside k = Unlocked"

fun blocked :: "'a outcome \<Rightarrow> bool" where
  "blocked Blocked = True"
| "blocked (Panic f) = False"
| "blocked (Next s) = False"

subsection \<open>The two pipelines\<close>

text \<open>The queue and the pool of a pipeline method; the other methods have none.\<close>

fun queue_of :: "api \<Rightarrow> queue option" where
  "queue_of CheckTxAsync = Some checkTxQueue"
| "queue_of DeliverTxAsync = Some deliverTxQueue"
| "queue_of m = None"

fun pool_of :: "queue \<Rightarrow> pool" where
  "pool_of checkTxQueue = checkTxPool"
| "pool_of deliverTxQueue = deliverTxPool"

text \<open>The application method an ordered worker calls, its pre-validation, and the kind
  of its messages.\<close>

fun real_call :: "queue \<Rightarrow> call" where
  "real_call checkTxQueue = CheckTx"
| "real_call deliverTxQueue = DeliverTx"

fun pre_call :: "queue \<Rightarrow> call" where
  "pre_call checkTxQueue = PreCheckTx"
| "pre_call deliverTxQueue = PreDeliverTx"

fun msg_of :: "queue \<Rightarrow> msg" where
  "msg_of checkTxQueue = MsgCheckTx"
| "msg_of deliverTxQueue = MsgDeliverTx"

text \<open>
  Projections of a trace: the items enqueued on a queue, the items on which the
  worker of a queue has executed an action, the items the in-flight counter was
  incremented and decremented for, and the items the callbacks fired for, each in the
  order it happened.
\<close>

fun sent_of :: "queue \<Rightarrow> event \<Rightarrow> nat option" where
  "sent_of q (Did t a n) = (if a = Send q then Some n else None)"
| "sent_of q e = None"

definition sent :: "queue \<Rightarrow> event list \<Rightarrow> nat list" where
  "sent q tr = List.map_filter (sent_of q) tr"

fun wdid_of :: "queue \<Rightarrow> action \<Rightarrow> event \<Rightarrow> nat option" where
  "wdid_of q x (Did t a n) = (if t = Worker q \<and> a = x then Some n else None)"
| "wdid_of q x e = None"

definition wdid :: "queue \<Rightarrow> action \<Rightarrow> event list \<Rightarrow> nat list" where
  "wdid q x tr = List.map_filter (wdid_of q x) tr"

definition recvd :: "queue \<Rightarrow> event list \<Rightarrow> nat list" where
  "recvd q tr = wdid q (Recv q) tr"

fun did_of :: "action \<Rightarrow> event \<Rightarrow> nat option" where
  "did_of x (Did t a n) = (if a = x then Some n else None)"
| "did_of x e = None"

definition adds :: "event list \<Rightarrow> nat list" where
  "adds tr = List.map_filter (did_of WgAdd) tr"

definition dones :: "event list \<Rightarrow> nat list" where
  "dones tr = List.map_filter (did_of WgDone) tr"

fun gcb_of :: "queue \<Rightarrow> event \<Rightarrow> nat option" where
  "gcb_of q (GlobCb t n rq ro) = (if t = Worker q then Some n else None)"
| "gcb_of q e = None"

definition gcbs :: "queue \<Rightarrow> event list \<Rightarrow> nat list" where
  "gcbs q tr = List.map_filter (gcb_of q) tr"

fun rcb_of :: "queue \<Rightarrow> event \<Rightarrow> nat option" where
  "rcb_of q (ReqCb t n ro) = (if t = Worker q then Some n else None)"
| "rcb_of q e = None"

definition rcbs :: "queue \<Rightarrow> event list \<Rightarrow> nat list" where
  "rcbs q tr = List.map_filter (rcb_of q) tr"

text \<open>
  Every worker is somewhere in its loop and every closure somewhere in its body.
\<close>

definition inv_prog :: "'a state \<Rightarrow> bool" where
  "inv_prog s =
    ((\<forall>q. suffix (cont s (Worker q)) (worker q) \<and> cont s (Worker q) \<noteq> []) \<and>
     (\<forall>n. \<exists>p. suffix (cont s (Task n)) (closure p)))"

text \<open>
  The queues: what was enqueued is what the worker has received followed by what is
  still in the channel; no item is enqueued twice; an item is enqueued by the body of
  its own invocation, which has passed its enqueue; a worker in the middle of a turn
  works on the item it received last.
\<close>

definition inv_q :: "'a state \<Rightarrow> bool" where
  "inv_q s =
    ((\<forall>q. sent q (trace s) = recvd q (trace s) @ chan s q) \<and>
     distinct (sent checkTxQueue (trace s) @ sent deliverTxQueue (trace s)) \<and>
     (\<forall>q n. n \<in> set (sent q (trace s)) \<longrightarrow>
        (\<exists>m. Invoked n m \<in> set (trace s) \<and> queue_of m = Some q) \<and>
        (\<forall>q'. Send q' \<notin> set (cont s (Host n)))) \<and>
     (\<forall>q. cont s (Worker q) \<noteq> worker q \<longrightarrow>
        recvd q (trace s) \<noteq> [] \<and> wcur s q = last (recvd q (trace s))))"

text \<open>
  The actions a worker executes in every turn of its loop, whatever the response slot
  holds.
\<close>

fun once :: "action \<Rightarrow> bool" where
  "once MtxLock = True"
| "once MtxUnlock = True"
| "once RWLock = True"
| "once ReqResDone = True"
| "once WgDone = True"
| "once ReqCallback = True"
| "once GlobalCallback = True"
| "once RWUnlock = True"
| "once a = False"

text \<open>
  The item a worker still has action \<open>x\<close> to execute on in its current turn, if any.
\<close>

definition pend :: "'a state \<Rightarrow> queue \<Rightarrow> action \<Rightarrow> nat list" where
  "pend s q x =
    (if cont s (Worker q) \<noteq> worker q \<and> x \<in> set (cont s (Worker q)) then [wcur s q] else [])"

text \<open>
  A worker executes each action of its loop on the items in the order it received
  them, and the unconditional ones on every item.
\<close>

definition inv_F :: "'a state \<Rightarrow> bool" where
  "inv_F s =
    (\<forall>q x. x \<in> set (worker q) \<longrightarrow>
       subseq (wdid q x (trace s) @ pend s q x) (recvd q (trace s)) \<and>
       (once x \<longrightarrow> recvd q (trace s) = wdid q x (trace s) @ pend s q x))"

text \<open>
  The global callback fires at every \<^verbatim>\<open>app.Callback(...)\<close> of a worker, the per-request
  callback at those \<^verbatim>\<open>GetCallback()\<close> that find one.
\<close>

definition inv_E :: "'a state \<Rightarrow> bool" where
  "inv_E s =
    (\<forall>q. gcbs q (trace s) = wdid q GlobalCallback (trace s) \<and>
         subseq (rcbs q (trace s)) (wdid q ReqCallback (trace s)))"

definition invs1 :: "'a state \<Rightarrow> bool" where
  "invs1 s = (inv_host s \<and> inv_wf s \<and> inv_rw s \<and> inv_prog s \<and> inv_q s \<and> inv_F s \<and> inv_E s)"

text \<open>A queue never holds more than its capacity, and a host goroutine works on its
  own frame.\<close>

definition inv_cap :: "'a state \<Rightarrow> bool" where
  "inv_cap s =
    ((\<forall>q. length (chan s q) \<le> capacity q) \<and>
     (\<forall>n a i. Did (Host n) a i \<in> set (trace s) \<longrightarrow> i = n))"

subsection \<open>The ordering gate\<close>

text \<open>Frame \<open>n\<close> is a submission to the pipeline of queue \<open>q\<close>.\<close>

definition pipeline :: "'a state \<Rightarrow> nat \<Rightarrow> queue \<Rightarrow> bool" where
  "pipeline s n q = (\<exists>m. Invoked n m \<in> set (trace s) \<and> queue_of m = Some q)"

text \<open>The worker of \<open>q\<close> is in a turn of its loop and has passed the gate of its item.\<close>

definition past_gate :: "'a state \<Rightarrow> queue \<Rightarrow> bool" where
  "past_gate s q = (cont s (Worker q) \<noteq> worker q \<and> MtxLock \<notin> set (cont s (Worker q)))"

text \<open>
  Only a submission to a pipeline has a closure, from its scheduling on. From the moment the
  submission has locked the gate until its closure has finished, the gate is held and no
  worker has passed it; once the closure has finished, it has released the gate.
\<close>

definition gate :: "'a state \<Rightarrow> nat \<Rightarrow> queue \<Rightarrow> bool" where
  "gate s n q =
    (suffix (cont s (Task n)) (closure (pool_of q)) \<and>
     (Schedule (pool_of q) \<in> set (cont s (Host n)) \<longrightarrow>
        cont s (Task n) = [] \<and> acts (Task n) (trace s) = []) \<and>
     (MtxLock \<notin> set (cont s (Host n)) \<and>
        (Schedule (pool_of q) \<in> set (cont s (Host n)) \<or> cont s (Task n) \<noteq> []) \<longrightarrow>
        mtx (items s n) \<and> (\<forall>q'. past_gate s q' \<longrightarrow> wcur s q' \<noteq> n)) \<and>
     (MtxLock \<notin> set (cont s (Host n)) \<and> Schedule (pool_of q) \<notin> set (cont s (Host n)) \<and>
        cont s (Task n) = [] \<longrightarrow> MtxUnlock \<in> set (acts (Task n) (trace s))))"

definition inv_gate :: "'a state \<Rightarrow> bool" where
  "inv_gate s =
    ((\<forall>n. (\<forall>q. \<not> pipeline s n q) \<longrightarrow>
        cont s (Task n) = [] \<and> acts (Task n) (trace s) = []) \<and>
     (\<forall>n q. pipeline s n q \<longrightarrow> gate s n q))"

subsection \<open>The in-flight counter\<close>

text \<open>In a trace, every occurrence of \<open>y\<close> comes after an occurrence of \<open>x\<close>.\<close>

fun precedes :: "'e \<Rightarrow> 'e \<Rightarrow> 'e list \<Rightarrow> bool" where
  "precedes x y [] = True"
| "precedes x y (e # es) = (if e = x then True else if e = y then False else precedes x y es)"

text \<open>
  The counter is the number of increments minus the number of decrements; only the
  workers decrement, each for an item it was incremented for. In the trace, the
  increment of an item comes before the release of its gate by its closure, that
  before the acquisition of its gate by a worker, and that before the decrement and
  before the release of the gate by the worker; nothing else releases a gate.
\<close>

definition inv_cnt :: "'a state \<Rightarrow> bool" where
  "inv_cnt s =
    (wgCommit s + length (dones (trace s)) = length (adds (trace s)) \<and>
     length (dones (trace s)) =
       length (wdid checkTxQueue WgDone (trace s)) + length (wdid deliverTxQueue WgDone (trace s)) \<and>
     (\<forall>q. set (wdid q WgDone (trace s)) \<subseteq> set (adds (trace s))) \<and>
     (\<forall>n a i. Did (Task n) a i \<in> set (trace s) \<longrightarrow> i = n) \<and>
     (\<forall>n. precedes (Did (Host n) WgAdd n) (Did (Task n) MtxUnlock n) (trace s)) \<and>
     (\<forall>n q. precedes (Did (Task n) MtxUnlock n) (Did (Worker q) MtxLock n) (trace s)) \<and>
     (\<forall>n q. precedes (Did (Host n) WgAdd n) (Did (Worker q) WgDone n) (trace s)) \<and>
     (\<forall>n q. precedes (Did (Worker q) MtxLock n) (Did (Worker q) WgDone n) (trace s)) \<and>
     (\<forall>n q. precedes (Did (Worker q) MtxLock n) (Did (Worker q) MtxUnlock n) (trace s)) \<and>
     (\<forall>t n. Did t MtxUnlock n \<in> set (trace s) \<longrightarrow> t = Task n \<or> (\<exists>q. t = Worker q)))"

definition invs2 :: "'a state \<Rightarrow> bool" where
  "invs2 s = (invs1 s \<and> inv_cap s \<and> inv_gate s)"

subsection \<open>Settled items\<close>

text \<open>
  An item a worker has marked done is done and has a response, and a worker that has
  passed the write of the response slot in its turn works on an item with a response.
\<close>

definition inv_res :: "'a state \<Rightarrow> bool" where
  "inv_res s =
    ((\<forall>q n. n \<in> set (wdid q ReqResDone (trace s)) \<longrightarrow>
        is_done (items s n) \<and> resp (items s n) \<noteq> None) \<and>
     (\<forall>q. cont s (Worker q) \<noteq> worker q \<and> SetResponse (msg_of q) \<notin> set (cont s (Worker q)) \<longrightarrow>
        resp (items s (wcur s q)) \<noteq> None))"

text \<open>The actions of a worker that settle an item.\<close>

fun settling :: "action \<Rightarrow> bool" where
  "settling (SetResponse m) = True"
| "settling ReqResDone = True"
| "settling WgDone = True"
| "settling ReqCallback = True"
| "settling GlobalCallback = True"
| "settling a = False"

subsection \<open>The three mutexes\<close>

text \<open>
  A goroutine holds mutex \<open>m\<close> when the next action on \<open>m\<close> ahead of it is its release.
\<close>

fun touches :: "mutex \<Rightarrow> action \<Rightarrow> bool" where
  "touches m (Lock m') = (m' = m)"
| "touches m (Unlock m') = (m' = m)"
| "touches m a = False"

definition holdsM :: "mutex \<Rightarrow> action list \<Rightarrow> bool" where
  "holdsM m k = (find (touches m) k = Some (Unlock m))"

text \<open>Every acquisition of a mutex is followed by its release, and every release is
  the last action on the mutex until it is acquired again.\<close>

fun okM :: "action \<Rightarrow> action list \<Rightarrow> bool" where
  "okM (Lock m) k = holdsM m k"
| "okM (Unlock m) k = (\<not> holdsM m k)"
| "okM a k = True"

fun wfM :: "action list \<Rightarrow> bool" where
  "wfM [] = True"
| "wfM (a # k) = (okM a k \<and> wfM k)"

text \<open>A mutex is locked exactly when a host goroutine holds it, and at most one does.\<close>

definition inv_mx :: "'a state \<Rightarrow> bool" where
  "inv_mx s =
    ((\<forall>m. mutexes s m \<longleftrightarrow> (\<exists>j. holdsM m (cont s (Host j)))) \<and>
     (\<forall>m i j. holdsM m (cont s (Host i)) \<longrightarrow> holdsM m (cont s (Host j)) \<longrightarrow> i = j))"

subsection \<open>Concrete applications and schedules\<close>

text \<open>
  An application for concrete runs: it counts the calls made to it, and its
  pre-validation rejects the empty transaction with code 1.
\<close>

definition demoApp :: "call \<Rightarrow> nat \<Rightarrow> bytes \<Rightarrow> nat \<times> result" where
  "demoApp c n x =
    (Suc n, Result (if (c = PreCheckTx \<or> c = PreDeliverTx) \<and> x = [] then 1 else 0) x)"

text \<open>An application value with the nine methods of \<^verbatim>\<open>types.Application\<close> only.\<close>

definition plainApp :: "nat application" where
  "plainApp =
    \<lparr>methods = [Info, SetOption, Query, CheckTx, InitChain, BeginBlock, DeliverTx, EndBlock,
        Commit],
     behaviour = demoApp\<rparr>"

text \<open>
  The host installs the global callback (frame 0), submits the transaction \<open>[1]\<close> with
  \<^verbatim>\<open>CheckTxAsync\<close> (frame 1), which runs to its return, and then calls \<^verbatim>\<open>CommitSync\<close>
  (frame 2), which runs up to the entry of the application's \<^verbatim>\<open>Commit\<close>. Neither the
  closure of frame 1 nor the worker has run.
\<close>

definition sched_CommitSync :: "label list" where
  "sched_CommitSync =
    [Invoke SetResponseCallback [],
     Run (Host 0), Run (Host 0), Run (Host 0), Run (Host 0),
     Invoke CheckTxAsync [1],
     Run (Host 1), Run (Host 1), Run (Host 1), Run (Host 1), Run (Host 1), Run (Host 1),
     Run (Host 1), Run (Host 1), Run (Host 1), Run (Host 1), Run (Host 1), Run (Host 1),
     Run (Host 1),
     Invoke CommitSync [],
     Run (Host 2), Run (Host 2), Run (Host 2), Run (Host 2), Run (Host 2)]"

text \<open>A \<^verbatim>\<open>CheckTxAsync\<close> that has taken its three locks and not yet enqueued.\<close>

definition sched_CheckTx_midway :: "label list" where
  "sched_CheckTx_midway =
    [Invoke CheckTxAsync [1],
     Run (Host 0), Run (Host 0), Run (Host 0), Run (Host 0), Run (Host 0), Run (Host 0)]"

text \<open>Two read-mode calls that have both entered the application.\<close>

definition sched_two_readers :: "label list" where
  "sched_two_readers =
    [Invoke QueryAsync [1], Invoke InfoSync [2],
     Run (Host 0), Run (Host 0), Run (Host 1), Run (Host 1)]"

text \<open>\<^verbatim>\<open>BeginBlockSync\<close> inside the application, \<^verbatim>\<open>QuerySync\<close> waiting for the lock.\<close>

definition sched_writer_reader :: "label list" where
  "sched_writer_reader =
    [Invoke BeginBlockSync [1], Invoke QuerySync [2], Run (Host 0), Run (Host 0)]"

text \<open>
  Two submissions whose pre-validations finish in the reverse order. The host installs
  the global callback (frame 0) and submits \<open>[1]\<close> (frame 1) and the empty transaction
  (frame 2) with \<^verbatim>\<open>CheckTxAsync\<close>, attaching a per-request callback to the first. The
  closure of frame 2 runs first and rejects; the worker receives item 1 and waits at its
  gate; the closure of frame 1 runs and accepts; the worker then works off both items.
\<close>

definition sched_reversed :: "label list" where
  "sched_reversed =
    Invoke SetResponseCallback [] # replicate 4 (Run (Host 0)) @
    Invoke CheckTxAsync [1] # replicate 13 (Run (Host 1)) @ [Attach 1] @
    Invoke CheckTxAsync [] # replicate 13 (Run (Host 2)) @
    replicate 5 (Run (Task 2)) @
    [Run (Worker checkTxQueue)] @
    replicate 4 (Run (Task 1)) @
    replicate 13 (Run (Worker checkTxQueue)) @
    replicate 11 (Run (Worker checkTxQueue))"

text \<open>\<^verbatim>\<open>DeliverTxAsync\<close> submitted while a \<^verbatim>\<open>BeginBlockSync\<close> holds the exclusivity lock
  and a \<^verbatim>\<open>CheckTxAsync\<close> holds the three mutexes; it has run up to its enqueue.\<close>

definition sched_deliver_under_locks :: "label list" where
  "sched_deliver_under_locks =
    Invoke BeginBlockSync [] # replicate 2 (Run (Host 0)) @
    Invoke CheckTxAsync [1] # replicate 6 (Run (Host 1)) @
    Invoke DeliverTxAsync [2] # replicate 3 (Run (Host 2))"

text \<open>
  Thirty-two \<^verbatim>\<open>DeliverTxAsync\<close> run up to and including their enqueue, which fills the
  apply-class queue, and a thirty-third has run up to its enqueue.
\<close>

definition sched_full_queue :: "label list" where
  "sched_full_queue =
    concat (map (\<lambda>i. Invoke DeliverTxAsync [] # replicate 4 (Run (Host i))) [0..<32]) @
    Invoke DeliverTxAsync [] # replicate 3 (Run (Host 32))"

text \<open>A \<^verbatim>\<open>DeliverTxAsync\<close> has enqueued its item, and the worker has received it, before
  the counter is incremented; then the same run to the end of the worker's turn.\<close>

definition sched_early_receive :: "label list" where
  "sched_early_receive =
    Invoke SetResponseCallback [] # replicate 4 (Run (Host 0)) @
    Invoke DeliverTxAsync [7] # replicate 4 (Run (Host 1)) @
    [Run (Worker deliverTxQueue)]"

definition sched_early_receive_done :: "label list" where
  "sched_early_receive_done =
    sched_early_receive @ replicate 3 (Run (Host 1)) @ replicate 4 (Run (Task 1)) @
    replicate 13 (Run (Worker deliverTxQueue))"

text \<open>
  A \<^verbatim>\<open>CheckTxAsync\<close> whose worker is about to decrement the counter; the same run to
  the end of the worker's turn; and a \<^verbatim>\<open>CommitAsync\<close> up to the entry of the
  application's \<^verbatim>\<open>Commit\<close>.
\<close>

definition sched_settling :: "label list" where
  "sched_settling =
    Invoke SetResponseCallback [] # replicate 4 (Run (Host 0)) @
    Invoke CheckTxAsync [1] # replicate 13 (Run (Host 1)) @ [Attach 1] @
    replicate 4 (Run (Task 1)) @
    replicate 9 (Run (Worker checkTxQueue))"

definition sched_settled :: "label list" where
  "sched_settled = sched_settling @ replicate 5 (Run (Worker checkTxQueue))"

definition sched_commit_begins :: "label list" where
  "sched_commit_begins = Invoke CommitAsync [] # replicate 6 (Run (Host 2))"

text \<open>A \<^verbatim>\<open>CheckTxAsync\<close> about to enqueue its item, and a second one that has reached
  the admission mutex while the first holds it.\<close>

definition sched_CheckTx_at_Send :: "label list" where
  "sched_CheckTx_at_Send = sched_CheckTx_midway @ [Run (Host 0)]"

definition sched_CheckTx_contended :: "label list" where
  "sched_CheckTx_contended =
    sched_CheckTx_midway @ Invoke CheckTxAsync [2] # replicate 3 (Run (Host 1))"

section \<open>Properties\<close>

subsection \<open>Runs\<close>

lemma run_induct:
  assumes "run A s ls = Next s'" "P s" "\<And>s l s'. P s \<Longrightarrow> step A s l = Next s' \<Longrightarrow> P s'"
  shows "P s'"
  using assms(1,2)
proof (induction ls arbitrary: s)
  case Nil then show ?case by simp
next
  case (Cons l ls)
  show ?case
  proof (cases "step A s l")
    case (Next s1)
    with Cons.prems have "run A s1 ls = Next s'" by simp
    moreover have "P s1" using assms(3) Cons.prems(2) Next by blast
    ultimately show ?thesis by (rule Cons.IH)
  qed (use Cons.prems in simp_all)
qed

lemma completes_reachable: "completes A a ls \<Longrightarrow> reachable A a (after A a ls)"
  unfolding completes_def after_def reachable_def
  by (cases "run A (init a) ls") auto

lemma step_Run:
  assumes "step A s (Run t) = Next s'"
  obtains a k s1 where "cont s t = a # k"
    "exec A t a (s\<lparr>cont := (cont s)(t := k)\<rparr>) = Next s1" "s' = emit (Did t a (cur s1 t)) s1"
proof (cases "cont s t")
  case Nil
  with assms show ?thesis by simp
next
  case (Cons a k)
  with assms that show ?thesis
    by (cases "exec A t a (s\<lparr>cont := (cont s)(t := k)\<rparr>)") simp_all
qed

subsection \<open>What an action leaves alone\<close>

lemma map_filter_append:
  "List.map_filter f (xs @ ys) = List.map_filter f xs @ List.map_filter f ys"
  by (simp add: List.map_filter_def)

lemma act_of_simps [simp]:
  "act_of t (Did t' a n) = (if t' = t then Some a else None)"
  "act_of t (Invoked n m) = None"
  "act_of t (Returned t' c n r) = None"
  "act_of t (ReqCb t' n ro) = None"
  "act_of t (GlobCb t' n rq ro) = None"
  by (simp_all add: act_of_def)

lemma acts_snoc [simp]:
  "acts t (tr @ [e]) = acts t tr @ (case act_of t e of Some a \<Rightarrow> [a] | None \<Rightarrow> [])"
  by (simp add: acts_def map_filter_append List.map_filter_def split: option.splits)

lemma exec_nitems: "exec A t a s = Next s' \<Longrightarrow> nitems s' = nitems s"
  by (cases a) (auto simp: upd_item_def emit_def split: if_splits list.splits prod.splits)

lemma exec_acts: "exec A t a s = Next s' \<Longrightarrow> acts u (trace s') = acts u (trace s)"
  by (cases a) (auto simp: upd_item_def emit_def split: if_splits list.splits prod.splits)

lemma exec_Invoked:
  "exec A t a s = Next s' \<Longrightarrow> Invoked n m \<in> set (trace s') \<longleftrightarrow> Invoked n m \<in> set (trace s)"
  by (cases a) (auto simp: upd_item_def emit_def split: if_splits list.splits prod.splits)

lemma exec_cont_Host:
  "exec A t a s = Next s' \<Longrightarrow> t \<noteq> Host n \<Longrightarrow> cont s' (Host n) = cont s (Host n)"
  by (cases a) (auto simp: upd_item_def emit_def split: if_splits list.splits prod.splits)

lemma exec_cont_self:
  "exec A t a s = Next s' \<Longrightarrow> \<forall>c j. a \<noteq> When c j \<Longrightarrow> a \<noteq> Again \<Longrightarrow> \<forall>n. t \<noteq> Task n
    \<Longrightarrow> cont s' t = cont s t"
  by (cases a) (auto simp: upd_item_def emit_def split: if_splits list.splits prod.splits)

subsection \<open>Host goroutines follow the body of their method\<close>

lemma body_plain: "a \<in> set (body m) \<Longrightarrow> (\<forall>c j. a \<noteq> When c j) \<and> a \<noteq> Again"
  by (cases m) auto

lemma inv_host_Invoke:
  assumes "inv_host s" "step A s (Invoke m x) = Next s'"
  shows "inv_host s'"
proof -
  have s': "s' = emit (Invoked (nitems s) m)
      (s\<lparr>items := (items s)(nitems s := new_item x), nitems := Suc (nitems s),
         cont := (cont s)(Host (nitems s) := body m)\<rparr>)"
    using assms(2) by simp
  have fresh: "\<And>m'. Invoked (nitems s) m' \<notin> set (trace s)"
    using assms(1) unfolding inv_host_def by (meson less_irrefl)
  have e: "cont s (Host (nitems s)) = []" using assms(1) by (simp add: inv_host_def)
  have a0: "acts (Host (nitems s)) (trace s) = []" using assms(1) by (simp add: inv_host_def)
  show ?thesis
    unfolding inv_host_def
  proof (intro conjI allI impI)
    fix n m' assume "Invoked n m' \<in> set (trace s')"
    then consider "n = nitems s" "m' = m" | "Invoked n m' \<in> set (trace s)"
      by (auto simp: s' emit_def)
    then have "n < nitems s' \<and> acts (Host n) (trace s') @ cont s' (Host n) = body m'"
    proof cases
      case 1
      then show ?thesis by (simp add: s' emit_def a0)
    next
      case 2
      with assms(1) have "n < nitems s" "acts (Host n) (trace s) @ cont s (Host n) = body m'"
        by (simp_all add: inv_host_def)
      then show ?thesis by (simp add: s' emit_def)
    qed
    then show "n < nitems s'" "acts (Host n) (trace s') @ cont s' (Host n) = body m'"
      by simp_all
  next
    fix n assume "n < nitems s'"
    then have "n < nitems s \<or> n = nitems s" by (auto simp: s' emit_def)
    then show "\<exists>m. Invoked n m \<in> set (trace s')"
      using assms(1) by (auto simp: inv_host_def s' emit_def)
  next
    fix n assume "nitems s' \<le> n"
    then show "cont s' (Host n) = []" "acts (Host n) (trace s') = []"
      using assms(1) by (simp_all add: inv_host_def s' emit_def)
  qed
qed

lemma inv_host_Attach:
  assumes "inv_host s" "step A s (Attach n) = Next s'"
  shows "inv_host s'"
proof -
  have "s' = upd_item n (\<lambda>i. i\<lparr>cb := True\<rparr>) s"
    using assms(2) by (simp split: if_splits)
  then show ?thesis using assms(1) by (simp add: inv_host_def upd_item_def)
qed

lemma inv_host_Run:
  assumes "inv_host s" "step A s (Run t) = Next s'"
  shows "inv_host s'"
proof -
  from assms(2) obtain a k s1 where ak: "cont s t = a # k"
    and ex: "exec A t a (s\<lparr>cont := (cont s)(t := k)\<rparr>) = Next s1"
    and s': "s' = emit (Did t a (cur s1 t)) s1"
    by (rule step_Run)
  note n1 = exec_nitems[OF ex] and a1 = exec_acts[OF ex] and i1 = exec_Invoked[OF ex]
  have tr: "trace s' = trace s1 @ [Did t a (cur s1 t)]" by (simp add: s' emit_def)
  have co: "cont s' = cont s1" by (simp add: s' emit_def)
  have ni: "nitems s' = nitems s" using n1 by (simp add: s' emit_def)
  have other: "cont s' (Host n) = cont s (Host n)" if "t \<noteq> Host n" for n
    using exec_cont_Host[OF ex that] that by (simp add: co)
  show ?thesis
    unfolding inv_host_def
  proof (intro conjI allI impI)
    fix n m assume "Invoked n m \<in> set (trace s')"
    then have inv: "Invoked n m \<in> set (trace s)" using i1 by (simp add: tr)
    with assms(1) have lt: "n < nitems s" and eq: "acts (Host n) (trace s) @ cont s (Host n) = body m"
      by (simp_all add: inv_host_def)
    have "acts (Host n) (trace s') @ cont s' (Host n) = body m"
    proof (cases "t = Host n")
      case True
      have "a \<in> set (body m)" using eq ak True by (metis in_set_conv_decomp)
      then have pl: "(\<forall>c j. a \<noteq> When c j) \<and> a \<noteq> Again" by (rule body_plain)
      have "cont s1 t = k" using exec_cont_self[OF ex] pl True by simp
      then show ?thesis using eq ak True a1 by (simp add: tr co)
    next
      case False
      then show ?thesis using eq a1 other by (simp add: tr)
    qed
    then show "n < nitems s'" "acts (Host n) (trace s') @ cont s' (Host n) = body m"
      using lt ni by simp_all
  next
    fix n assume "n < nitems s'"
    then show "\<exists>m. Invoked n m \<in> set (trace s')"
      using assms(1) ni i1 by (auto simp: inv_host_def tr)
  next
    fix n assume "nitems s' \<le> n"
    then have ge: "nitems s \<le> n" using ni by simp
    with assms(1) have e: "cont s (Host n) = []" "acts (Host n) (trace s) = []"
      by (simp_all add: inv_host_def)
    with ak have ne: "t \<noteq> Host n" by auto
    then show "cont s' (Host n) = []" "acts (Host n) (trace s') = []"
      using e other a1 by (simp_all add: tr)
  qed
qed

lemma inv_host_step:
  assumes "inv_host s" "step A s l = Next s'"
  shows "inv_host s'"
proof (cases l)
  case (Invoke m x)
  with assms show ?thesis using inv_host_Invoke by blast
next
  case (Attach n)
  with assms show ?thesis using inv_host_Attach by blast
next
  case (Run t)
  with assms show ?thesis using inv_host_Run by blast
qed

lemma inv_host_init: "inv_host (init a)"
  by (simp add: inv_host_def init_def acts_def)

lemma inv_host_reachable: "reachable A a s \<Longrightarrow> inv_host s"
proof -
  assume "reachable A a s"
  then obtain ls where "run A (init a) ls = Next s" by (auto simp: reachable_def)
  then show ?thesis
    by (rule run_induct) (rule inv_host_init, erule (1) inv_host_step)
qed

subsection \<open>The exclusivity lock\<close>

lemma wf_body: "wf (body m)"
  by (cases m) (simp_all add: holdsW_def holdsR_def)

lemma wf_closure: "wf (closure p)"
  by (cases p) (simp_all add: holdsW_def holdsR_def)

lemma wf_worker: "wf (worker q)"
  by (cases q) (simp_all add: holdsW_def holdsR_def checkTxWorker_def deliverTxWorker_def)

lemma wf_drop: "wf k \<Longrightarrow> wf (drop j k)"
proof (induction k arbitrary: j)
  case Nil then show ?case by simp
next
  case (Cons a k)
  then show ?case by (cases j) simp_all
qed

lemma norw_drop: "\<not> list_ex is_rw k \<Longrightarrow> \<not> list_ex is_rw (drop j k)"
  by (metis in_set_dropD list_ex_iff)

lemma norw_closure: "\<not> list_ex is_rw (closure p)"
  by (cases p) simp_all

lemma find_norw: "\<not> list_ex is_rw k \<Longrightarrow> find is_rw k = None"
  by (simp add: find_None_iff list_ex_iff)

lemma find_drop_norw: "\<not> list_ex is_rw (take j k) \<Longrightarrow> find is_rw (drop j k) = find is_rw k"
proof (induction k arbitrary: j)
  case Nil then show ?case by simp
next
  case (Cons a k)
  then show ?case by (cases j) auto
qed

lemma find_body: "find is_rw (body m) \<noteq> Some RWUnlock \<and> find is_rw (body m) \<noteq> Some RUnlock"
  by (cases m) simp_all

lemma find_worker: "find is_rw (worker q) = Some RWLock"
  by (cases q) (simp_all add: checkTxWorker_def deliverTxWorker_def)

text \<open>The continuations after a step of goroutine \<open>t\<close>.\<close>

lemma exec_cont_cases:
  assumes "exec A t a (s\<lparr>cont := (cont s)(t := k)\<rparr>) = Next s1"
  shows "cont s1 =
    (case a of
       Schedule p \<Rightarrow> ((cont s)(t := k))(Task (cur s t) := closure p)
     | When c j \<Rightarrow> (cont s)(t := if holds c s t then k else drop j k)
     | Again \<Rightarrow> (cont s)(t := case t of Worker q \<Rightarrow> worker q | _ \<Rightarrow> [])
     | _ \<Rightarrow> (cont s)(t := k))"
proof -
  have h: "holds c (s\<lparr>cont := (cont s)(t := k)\<rparr>) t = holds c s t" for c
    by (cases c; cases t) simp_all
  have c: "cur (s\<lparr>cont := (cont s)(t := k)\<rparr>) t = cur s t"
    by (cases t) simp_all
  show ?thesis
    using assms
    by (cases a) (auto simp: upd_item_def emit_def h c split: if_splits list.splits prod.splits)
qed


lemma inv_wf_init: "inv_wf (init a)"
  unfolding inv_wf_def
proof (intro conjI allI)
  fix t show "wf (cont (init a) t)"
    by (cases t) (simp_all add: init_def wf_worker)
next
  fix n show "\<not> list_ex is_rw (cont (init a) (Task n))" by (simp add: init_def)
qed

lemma inv_wf_Run:
  assumes "inv_wf s" "step A s (Run t) = Next s'"
  shows "inv_wf s'"
proof -
  from assms(2) obtain a k s1 where ak: "cont s t = a # k"
    and ex: "exec A t a (s\<lparr>cont := (cont s)(t := k)\<rparr>) = Next s1"
    and s': "s' = emit (Did t a (cur s1 t)) s1"
    by (rule step_Run)
  have co: "cont s' = cont s1" by (simp add: s' emit_def)
  note c1 = exec_cont_cases[OF ex]
  have wfa: "ok a k" "wf k" using assms(1) ak unfolding inv_wf_def by (metis wf.simps(2))+
  have wfo: "wf (cont s u)" for u using assms(1) by (simp add: inv_wf_def)
  have nrw: "\<not> list_ex is_rw (cont s (Task n))" for n using assms(1) by (simp add: inv_wf_def)
  have 1: "wf (cont s1 u)" for u
    using wfa wfo[of u] by (cases a) (auto simp: c1 wf_closure wf_worker wf_drop split: tid.splits)
  have nk: "\<not> list_ex is_rw k" if "t = Task n" for n
    using nrw[of n] ak that by simp
  have 2: "\<not> list_ex is_rw (cont s1 (Task n))" for n
    using nk[of n] nrw[of n]
    by (cases a) (auto simp: c1 norw_closure norw_drop)
  show ?thesis unfolding inv_wf_def co using 1 2 by blast
qed

lemma inv_wf_step:
  assumes "inv_wf s" "step A s l = Next s'"
  shows "inv_wf s'"
proof (cases l)
  case (Invoke m x)
  with assms(2) have "cont s' = (cont s)(Host (nitems s) := body m)" by (auto simp: emit_def)
  with assms(1) show ?thesis by (simp add: inv_wf_def wf_body)
next
  case (Attach n)
  with assms(2) have "cont s' = cont s" by (auto simp: upd_item_def split: if_splits)
  with assms(1) show ?thesis by (simp add: inv_wf_def)
next
  case (Run t)
  with assms show ?thesis using inv_wf_Run by blast
qed

lemma inv_wf_reachable: "reachable A a s \<Longrightarrow> inv_wf s"
proof -
  assume "reachable A a s"
  then obtain ls where "run A (init a) ls = Next s" by (auto simp: reachable_def)
  then show ?thesis
    by (rule run_induct) (rule inv_wf_init, erule (1) inv_wf_step)
qed


lemma exec_rw_fields:
  assumes "exec A t a s0 = Next s1"
  shows "(a = RWLock \<longrightarrow> \<not> rw_writer s0 \<and> rw_readers s0 = 0 \<and> rw_writer s1 \<and> rw_readers s1 = 0)"
    "(a = RWUnlock \<longrightarrow> rw_writer s0 \<and> \<not> rw_writer s1 \<and> rw_readers s1 = rw_readers s0)"
    "(a = RLock \<longrightarrow> \<not> rw_writer s0 \<and> \<not> rw_writer s1 \<and> rw_readers s1 = Suc (rw_readers s0))"
    "(a = RUnlock \<longrightarrow> 0 < rw_readers s0 \<and> rw_readers s1 = rw_readers s0 - 1 \<and>
        rw_writer s1 = rw_writer s0)"
    "(a \<noteq> RWLock \<and> a \<noteq> RWUnlock \<and> a \<noteq> RLock \<and> a \<noteq> RUnlock \<longrightarrow>
        rw_writer s1 = rw_writer s0 \<and> rw_readers s1 = rw_readers s0)"
  using assms
  by (cases a; auto simp: upd_item_def emit_def split: if_splits list.splits prod.splits)+

lemma find_holds [simp]:
  "\<not> is_rw a \<Longrightarrow> holdsW (a # k) = holdsW k"
  "\<not> is_rw a \<Longrightarrow> holdsR (a # k) = holdsR k"
  "is_rw a \<Longrightarrow> holdsW (a # k) = (a = RWUnlock)"
  "is_rw a \<Longrightarrow> holdsR (a # k) = (a = RUnlock)"
  "holdsW [] = False" "holdsR [] = False"
  by (simp_all add: holdsW_def holdsR_def)

lemma holds_excl: "holdsW k \<Longrightarrow> \<not> holdsR k"
  by (simp add: holdsW_def holdsR_def)

lemma Run_find_rw:
  assumes "inv_wf s" "cont s t = a # k"
    and "exec A t a (s\<lparr>cont := (cont s)(t := k)\<rparr>) = Next s1" "\<not> is_rw a"
  shows "find is_rw (cont s1 u) = find is_rw (cont s u)"
proof -
  note c1 = exec_cont_cases[OF assms(3)]
  have oka: "ok a k" using assms(1,2) unfolding inv_wf_def by (metis wf.simps(2))
  have nrw: "find is_rw (cont s (Task n)) = None" for n
    using assms(1) by (simp add: inv_wf_def find_norw)
  have self: "find is_rw (cont s t) = find is_rw k" using assms(2,4) by simp
  have tk: "find is_rw k = None" if "t = Task n" for n
    using nrw[of n] self that by simp
  show ?thesis
  proof (cases "u = t")
    case True
    show ?thesis
      using oka assms(4) self True tk
      by (cases a) (auto simp: c1 find_drop_norw find_norw[OF norw_closure])
  next
    case False
    then show ?thesis
      using nrw by (cases a) (auto simp: c1 find_norw[OF norw_closure])
  qed
qed

lemma Run_rw_cont:
  assumes "exec A t a (s\<lparr>cont := (cont s)(t := k)\<rparr>) = Next s1" "is_rw a"
  shows "cont s1 = (cont s)(t := if a = Again then (case t of Worker q \<Rightarrow> worker q | _ \<Rightarrow> []) else k)"
  using assms(2) by (cases a) (simp_all add: exec_cont_cases[OF assms(1)])

lemma not_holds_reload:
  "\<not> holdsW (case t of Worker q \<Rightarrow> worker q | _ \<Rightarrow> [])"
  "\<not> holdsR (case t of Worker q \<Rightarrow> worker q | _ \<Rightarrow> [])"
  by (cases t; simp add: holdsW_def holdsR_def find_worker)+

lemma inv_rw_cong:
  assumes "inv_rw s"
    and "\<And>u. holdsW (cont s' u) = holdsW (cont s u)"
    and "\<And>u. holdsR (cont s' u) = holdsR (cont s u)"
    and "rw_writer s' = rw_writer s" "rw_readers s' = rw_readers s"
  shows "inv_rw s'"
  using assms(1) unfolding inv_rw_def assms(2-5) .

lemma inv_rw_Run:
  assumes "inv_rw s" "inv_wf s" "step A s (Run t) = Next s'"
  shows "inv_rw s'"
proof -
  from assms(3) obtain a k s1 where ak: "cont s t = a # k"
    and ex: "exec A t a (s\<lparr>cont := (cont s)(t := k)\<rparr>) = Next s1"
    and s': "s' = emit (Did t a (cur s1 t)) s1"
    by (rule step_Run)
  have co: "cont s' = cont s1" by (simp add: s' emit_def)
  have fl: "rw_writer s' = rw_writer s1" "rw_readers s' = rw_readers s1" by (simp_all add: s' emit_def)
  note f = exec_rw_fields[OF ex, simplified]
  have oka: "ok a k" using assms(2) ak unfolding inv_wf_def by (metis wf.simps(2))
  let ?W = "\<lambda>s. {u. holdsW (cont s u)}" and ?R = "\<lambda>s. {u. holdsR (cont s u)}"
  from assms(1) have fin: "finite (?R s)" and card: "rw_readers s = card (?R s)"
    and wr: "rw_writer s \<longleftrightarrow> (\<exists>u. holdsW (cont s u))"
    and uniq: "\<And>u v. holdsW (cont s u) \<Longrightarrow> holdsW (cont s v) \<Longrightarrow> u = v"
    and excl: "rw_writer s \<Longrightarrow> rw_readers s = 0"
    by (auto simp: inv_rw_def)
  consider (plain) "\<not> is_rw a" | (again) "a = Again" | (wl) "a = RWLock" | (wu) "a = RWUnlock"
    | (rl) "a = RLock" | (ru) "a = RUnlock"
    by (cases a) auto
  then show ?thesis
  proof cases
    case plain
    then have "find is_rw (cont s1 u) = find is_rw (cont s u)" for u
      using Run_find_rw[OF assms(2) ak ex] by blast
    then have "holdsW (cont s' u) = holdsW (cont s u)" "holdsR (cont s' u) = holdsR (cont s u)" for u
      by (simp_all add: holdsW_def holdsR_def co)
    moreover have "rw_writer s' = rw_writer s" "rw_readers s' = rw_readers s"
      using plain f(5) by (auto simp: fl)
    ultimately show ?thesis using assms(1) by (rule_tac inv_rw_cong) auto
  next
    case again
    then have c: "cont s1 = (cont s)(t := case t of Worker q \<Rightarrow> worker q | _ \<Rightarrow> [])"
      using Run_rw_cont[OF ex] by simp
    have "holdsW (cont s' u) = holdsW (cont s u)" "holdsR (cont s' u) = holdsR (cont s u)" for u
      using ak again not_holds_reload[of t] by (auto simp: co c)
    moreover have "rw_writer s' = rw_writer s" "rw_readers s' = rw_readers s"
      using again f(5) by (auto simp: fl)
    ultimately show ?thesis using assms(1) by (rule_tac inv_rw_cong) auto
  next
    case wl
    then have c: "cont s1 = (cont s)(t := k)" using Run_rw_cont[OF ex] by simp
    have hk: "holdsW k" "\<not> holdsR k" using oka wl holds_excl by auto
    have nw: "\<not> rw_writer s" "rw_readers s = 0" "rw_writer s'" "rw_readers s' = 0"
      using f(1) wl by (auto simp: fl)
    have W: "holdsW (cont s' u) \<longleftrightarrow> u = t" for u
      using hk nw(1) wr by (auto simp: co c)
    have R: "holdsR (cont s' u) = holdsR (cont s u)" for u
      using hk ak wl by (auto simp: co c)
    show ?thesis unfolding inv_rw_def using W R nw fin card by auto
  next
    case wu
    then have c: "cont s1 = (cont s)(t := k)" using Run_rw_cont[OF ex] by simp
    have hk: "\<not> holdsW k" "\<not> holdsR k" using oka wu by auto
    have ht: "holdsW (cont s t)" using ak wu by simp
    have nw: "rw_writer s" "\<not> rw_writer s'" "rw_readers s' = rw_readers s"
      using f(2) wu by (auto simp: fl)
    have W: "\<not> holdsW (cont s' u)" for u
      using hk uniq[OF ht, of u] by (auto simp: co c)
    have R: "holdsR (cont s' u) = holdsR (cont s u)" for u
      using hk ak wu by (auto simp: co c)
    show ?thesis unfolding inv_rw_def using W R nw fin card by auto
  next
    case rl
    then have c: "cont s1 = (cont s)(t := k)" using Run_rw_cont[OF ex] by simp
    have hk: "holdsR k" "\<not> holdsW k" using oka rl holds_excl by auto
    have nw: "\<not> rw_writer s" "\<not> rw_writer s'" "rw_readers s' = Suc (rw_readers s)"
      using f(3) rl by (auto simp: fl)
    have W: "holdsW (cont s' u) = holdsW (cont s u)" for u
      using hk ak rl by (auto simp: co c)
    have tn: "t \<notin> ?R s" using ak rl by simp
    have R: "?R s' = insert t (?R s)"
      using hk by (auto simp: co c)
    show ?thesis unfolding inv_rw_def R using W nw fin card tn wr uniq by auto
  next
    case ru
    then have c: "cont s1 = (cont s)(t := k)" using Run_rw_cont[OF ex] by simp
    have hk: "\<not> holdsW k" "\<not> holdsR k" using oka ru by auto
    have nw: "0 < rw_readers s" "rw_readers s' = rw_readers s - 1" "rw_writer s' = rw_writer s"
      using f(4) ru by (auto simp: fl)
    have nwr: "\<not> rw_writer s" using nw(1) excl by auto
    have W: "holdsW (cont s' u) = holdsW (cont s u)" for u
      using hk ak ru by (auto simp: co c)
    have tn: "t \<in> ?R s" using ak ru by simp
    have R: "?R s' = ?R s - {t}"
      using hk by (auto simp: co c)
    show ?thesis unfolding inv_rw_def R using W nw nwr fin card tn wr uniq by auto
  qed
qed

lemma inv_rw_step:
  assumes "inv_rw s" "inv_wf s" "inv_host s" "step A s l = Next s'"
  shows "inv_rw s'"
proof (cases l)
  case (Invoke m x)
  with assms(4) have c: "cont s' = (cont s)(Host (nitems s) := body m)"
    and f: "rw_writer s' = rw_writer s" "rw_readers s' = rw_readers s" by (auto simp: emit_def)
  have e: "cont s (Host (nitems s)) = []" using assms(3) by (simp add: inv_host_def)
  have "holdsW (cont s' u) = holdsW (cont s u)" "holdsR (cont s' u) = holdsR (cont s u)" for u
    using e find_body[of m] by (auto simp: c holdsW_def holdsR_def)
  then show ?thesis using assms(1) f by (rule_tac inv_rw_cong) auto
next
  case (Attach n)
  with assms(4) have "cont s' = cont s" "rw_writer s' = rw_writer s" "rw_readers s' = rw_readers s"
    by (auto simp: upd_item_def split: if_splits)
  with assms(1) show ?thesis by (rule_tac inv_rw_cong) auto
next
  case (Run t)
  with assms show ?thesis using inv_rw_Run by blast
qed

lemma inv_rw_init: "inv_rw (init a)"
proof -
  have "\<not> holdsW (cont (init a) t)" "\<not> holdsR (cont (init a) t)" for t
    by (cases t; simp add: init_def holdsW_def holdsR_def find_worker)+
  then show ?thesis by (simp add: inv_rw_def init_def)
qed

lemma inv_rw_reachable:
  assumes "reachable A a s"
  shows "inv_rw s"
proof -
  from assms obtain ls where r: "run A (init a) ls = Next s" by (auto simp: reachable_def)
  have "inv_rw s \<and> inv_wf s \<and> inv_host s"
    using r
  proof (rule run_induct)
    show "inv_rw (init a) \<and> inv_wf (init a) \<and> inv_host (init a)"
      by (simp add: inv_rw_init inv_wf_init inv_host_init)
  next
    fix s l s' assume "inv_rw s \<and> inv_wf s \<and> inv_host s" "step A s l = Next s'"
    then show "inv_rw s' \<and> inv_wf s' \<and> inv_host s'"
      using inv_rw_step inv_wf_step inv_host_step by blast
  qed
  then show ?thesis by simp
qed


lemma inside_holds:
  assumes "wf k"
  shows "inside k = Exclusive \<Longrightarrow> holdsW k" "inside k = Shared \<Longrightarrow> holdsR k"
proof -
  show "inside k = Exclusive \<Longrightarrow> holdsW k"
    using assms by (induction k rule: inside.induct) auto
  show "inside k = Shared \<Longrightarrow> holdsR k"
    using assms by (induction k rule: inside.induct) auto
qed

subsection \<open>Where the goroutines are\<close>

lemma worker_eq:
  "worker q =
    [Recv q, MtxLock, MtxUnlock, RWLock,
     When ResponseIsNil 3, AppCall (real_call q), AppRet (real_call q), SetResponse (msg_of q),
     ReqResDone, WgDone, ReqCallback, GlobalCallback, RWUnlock, Again]"
  by (cases q) (simp_all add: checkTxWorker_def deliverTxWorker_def)

lemma closure_eq:
  "closure (pool_of q) =
    [AppCall (pre_call q), AppRet (pre_call q), When ResNotOK 1, SetResponse (msg_of q), MtxUnlock]"
  by (cases q) simp_all

lemma pool_of_surj: "\<exists>q. p = pool_of q"
  by (cases p) (auto intro: exI[of _ checkTxQueue] exI[of _ deliverTxQueue])

lemma worker_pos:
  assumes "suffix (a # k) (worker q)"
  shows "(a = Again \<and> k = []) \<or> (a \<noteq> Again \<and> k \<noteq> [] \<and> (\<forall>c j. a = When c j \<longrightarrow> drop j k \<noteq> []))"
  using assms by (auto simp: worker_eq suffix_Cons)

lemma proj_snoc:
  "List.map_filter f (tr @ [e]) = List.map_filter f tr @ (case f e of Some n \<Rightarrow> [n] | None \<Rightarrow> [])"
  by (simp add: List.map_filter_def split: option.splits)

lemma inv_prog_init: "inv_prog (init a)"
  by (auto simp: inv_prog_def init_def worker_eq)

lemma inv_prog_step:
  assumes "inv_prog s" "step A s l = Next s'"
  shows "inv_prog s'"
proof (cases l)
  case (Invoke m x)
  with assms(2) have "cont s' = (cont s)(Host (nitems s) := body m)" by (auto simp: emit_def)
  with assms(1) show ?thesis by (simp add: inv_prog_def)
next
  case (Attach n)
  with assms(2) have "cont s' = cont s" by (auto simp: upd_item_def split: if_splits)
  with assms(1) show ?thesis by (simp add: inv_prog_def)
next
  case (Run t)
  from assms(2)[unfolded Run] obtain a k s1 where ak: "cont s t = a # k"
    and ex: "exec A t a (s\<lparr>cont := (cont s)(t := k)\<rparr>) = Next s1"
    and s': "s' = emit (Did t a (cur s1 t)) s1"
    by (rule step_Run)
  have co: "cont s' = cont s1" by (simp add: s' emit_def)
  note c1 = exec_cont_cases[OF ex]
  have w: "suffix (cont s (Worker q)) (worker q)" "cont s (Worker q) \<noteq> []" for q
    using assms(1) by (simp_all add: inv_prog_def)
  have tk: "\<exists>p. suffix (cont s (Task n)) (closure p)" for n
    using assms(1) by (simp add: inv_prog_def)
  have 1: "suffix (cont s1 (Worker q)) (worker q) \<and> cont s1 (Worker q) \<noteq> []" for q
  proof (cases "t = Worker q")
    case True
    then have sf: "suffix (a # k) (worker q)" using w[of q] ak by simp
    then have sk: "suffix k (worker q)" by (rule suffix_ConsD)
    have sd: "suffix (drop j k) (worker q)" for j
      using sk suffix_drop suffix_order.trans by blast
    show ?thesis
      using worker_pos[OF sf] sk sd True by (cases a) (auto simp: c1 worker_eq)
  next
    case False
    then show ?thesis using w[of q] by (cases a) (auto simp: c1)
  qed
  have 2: "\<exists>p. suffix (cont s1 (Task n)) (closure p)" for n
  proof (cases "t = Task n")
    case True
    then obtain p where sf: "suffix (a # k) (closure p)" using tk[of n] ak by auto
    then have sk: "suffix k (closure p)" by (rule suffix_ConsD)
    have sd: "suffix (drop j k) (closure p)" for j
      using sk suffix_drop suffix_order.trans by blast
    show ?thesis
      using sk sd True by (cases a) (auto simp: c1 intro: exI[of _ p])
  next
    case False
    then show ?thesis using tk[of n] by (cases a) (auto simp: c1)
  qed
  show ?thesis unfolding inv_prog_def co using 1 2 by blast
qed

lemma thread_cases:
  assumes "inv_host s" "inv_prog s" "cont s t = a # k"
  obtains (host) n m where "t = Host n" "n < nitems s" "Invoked n m \<in> set (trace s)"
      "suffix (a # k) (body m)"
    | (task) n p where "t = Task n" "suffix (a # k) (closure p)"
    | (worker) q where "t = Worker q" "suffix (a # k) (worker q)"
proof (cases t)
  case (Host n)
  have lt: "n < nitems s"
    using assms(1,3) Host unfolding inv_host_def by (metis list.distinct(1) not_le_imp_less)
  then obtain m where m: "Invoked n m \<in> set (trace s)"
    using assms(1) unfolding inv_host_def by blast
  then have "acts (Host n) (trace s) @ cont s (Host n) = body m"
    using assms(1) unfolding inv_host_def by blast
  then have "suffix (a # k) (body m)" using assms(3) Host by (metis suffixI)
  then show ?thesis using host Host lt m by blast
next
  case (Task n)
  then show ?thesis using assms(2,3) task unfolding inv_prog_def by metis
next
  case (Worker q)
  then show ?thesis using assms(2,3) worker unfolding inv_prog_def by metis
qed

lemma body_Send:
  assumes "suffix (Send q # k) (body m)"
  shows "queue_of m = Some q \<and> (\<forall>q'. Send q' \<notin> set k)"
  using assms by (cases m) (auto simp: suffix_Cons)

lemma body_not:
  assumes "suffix (a # k) (body m)"
  shows "a \<noteq> Recv q" "a \<noteq> WgDone" "a \<noteq> ReqResDone" "a \<noteq> ReqCallback" "a \<noteq> GlobalCallback"
    "a \<noteq> MtxUnlock" "a \<noteq> Again" "a \<noteq> When c j" "a \<noteq> SetResponse mg"
proof -
  have "a \<in> set (body m)" using assms by (meson list.set_intros(1) set_mono_suffix subsetD)
  then show "a \<noteq> Recv q" "a \<noteq> WgDone" "a \<noteq> ReqResDone" "a \<noteq> ReqCallback" "a \<noteq> GlobalCallback"
    "a \<noteq> MtxUnlock" "a \<noteq> Again" "a \<noteq> When c j" "a \<noteq> SetResponse mg"
    by (cases m; auto)+
qed

lemma closure_only:
  assumes "suffix (a # k) (closure p)"
  shows "a = AppCall PreCheckTx \<or> a = AppCall PreDeliverTx \<or> a = AppRet PreCheckTx \<or>
    a = AppRet PreDeliverTx \<or> a = When ResNotOK 1 \<or> a = SetResponse MsgCheckTx \<or>
    a = SetResponse MsgDeliverTx \<or> a = MtxUnlock"
proof -
  have "a \<in> set (closure p)" using assms by (meson list.set_intros(1) set_mono_suffix subsetD)
  then show ?thesis by (cases p) auto
qed

lemma worker_only:
  assumes "suffix (a # k) (worker q)"
  shows "a \<in> set (worker q)"
  using assms by (meson list.set_intros(1) set_mono_suffix subsetD)

lemma who_Send:
  assumes "inv_host s" "inv_prog s" "cont s t = Send q # k"
  obtains n m where "t = Host n" "n < nitems s" "Invoked n m \<in> set (trace s)"
    "queue_of m = Some q" "\<forall>q'. Send q' \<notin> set k"
  using assms(1,2,3)
proof (cases rule: thread_cases)
  case (host n m)
  then show ?thesis using that body_Send by blast
next
  case (task n p)
  then show ?thesis using closure_only by blast
next
  case (worker q')
  then show ?thesis using worker_only[OF worker(2)] by (simp add: worker_eq)
qed

lemma who_Recv:
  assumes "inv_host s" "inv_prog s" "cont s t = Recv q # k"
  shows "t = Worker q \<and> cont s t = worker q"
  using assms(1,2,3)
proof (cases rule: thread_cases)
  case (host n m)
  then show ?thesis using body_not(1) by blast
next
  case (task n p)
  then show ?thesis using closure_only by blast
next
  case (worker q')
  then show ?thesis using assms(3) by (auto simp: worker_eq suffix_Cons)
qed

subsection \<open>What a step adds to the trace and does to the queues\<close>

lemma exec_proj:
  assumes "exec A t a s0 = Next s1"
  shows "sent q (trace s1) = sent q (trace s0)" "wdid q x (trace s1) = wdid q x (trace s0)"
    "adds (trace s1) = adds (trace s0)" "dones (trace s1) = dones (trace s0)"
  using assms
  by (cases a; auto simp: upd_item_def emit_def sent_def wdid_def adds_def dones_def proj_snoc
      split: if_splits list.splits prod.splits)+

lemma exec_cur:
  assumes "exec A t a s0 = Next s1" "\<forall>q. a \<noteq> Recv q"
  shows "wcur s1 = wcur s0" "cur s1 u = cur s0 u"
proof -
  show w: "wcur s1 = wcur s0"
    using assms by (cases a) (auto simp: upd_item_def emit_def split: if_splits list.splits prod.splits)
  show "cur s1 u = cur s0 u" using w by (cases u) simp_all
qed

lemma exec_chan:
  assumes "exec A t a s0 = Next s1" "\<forall>q. a \<noteq> Recv q" "\<forall>q. a \<noteq> Send q"
  shows "chan s1 = chan s0"
  using assms by (cases a) (auto simp: upd_item_def emit_def split: if_splits list.splits prod.splits)

lemma exec_Send:
  assumes "exec A t (Send q) s0 = Next s1"
  shows "chan s1 = (chan s0)(q := chan s0 q @ [cur s0 t])" "length (chan s0 q) < capacity q"
  using assms by (auto split: if_splits)

lemma exec_Recv:
  assumes "exec A t (Recv q) s0 = Next s1"
  obtains i rest where "chan s0 q = i # rest" "chan s1 = (chan s0)(q := rest)"
    "wcur s1 = (wcur s0)(q := i)"
  using assms by (auto split: list.splits)

lemma exec_cont_Worker:
  "exec A t a s = Next s' \<Longrightarrow> t \<noteq> Worker q \<Longrightarrow> cont s' (Worker q) = cont s (Worker q)"
  by (cases a) (auto simp: upd_item_def emit_def split: if_splits list.splits prod.splits)

lemma sent_snoc [simp]:
  "sent q (tr @ [Did t a n]) = sent q tr @ (if a = Send q then [n] else [])"
  by (simp add: sent_def proj_snoc)

lemma wdid_snoc [simp]:
  "wdid q x (tr @ [Did t a n]) = wdid q x tr @ (if t = Worker q \<and> a = x then [n] else [])"
  by (simp add: wdid_def proj_snoc)

lemma adds_snoc [simp]:
  "adds (tr @ [Did t a n]) = adds tr @ (if a = WgAdd then [n] else [])"
  "dones (tr @ [Did t a n]) = dones tr @ (if a = WgDone then [n] else [])"
  by (simp_all add: adds_def dones_def proj_snoc)

lemma proj_Invoked [simp]:
  "sent q (tr @ [Invoked n m]) = sent q tr" "wdid q x (tr @ [Invoked n m]) = wdid q x tr"
  "adds (tr @ [Invoked n m]) = adds tr" "dones (tr @ [Invoked n m]) = dones tr"
  by (simp_all add: sent_def wdid_def adds_def dones_def proj_snoc)

lemma inv_q_init: "inv_q (init a)"
  by (simp add: inv_q_def init_def sent_def recvd_def wdid_def)

lemma inv_q_Run:
  assumes "inv_q s" "inv_host s" "inv_prog s" "step A s (Run t) = Next s'"
  shows "inv_q s'"
proof -
  from assms(4) obtain a k s1 where ak: "cont s t = a # k"
    and ex: "exec A t a (s\<lparr>cont := (cont s)(t := k)\<rparr>) = Next s1"
    and s': "s' = emit (Did t a (cur s1 t)) s1"
    by (rule step_Run)
  let ?s0 = "s\<lparr>cont := (cont s)(t := k)\<rparr>"
  have tr: "trace s' = trace s1 @ [Did t a (cur s1 t)]" by (simp add: s' emit_def)
  have co: "cont s' = cont s1" and ch: "chan s' = chan s1" and wc: "wcur s' = wcur s1"
    by (simp_all add: s' emit_def)
  note p = exec_proj[OF ex, simplified]
  have iv: "Invoked n m \<in> set (trace s') \<longleftrightarrow> Invoked n m \<in> set (trace s)" for n m
    using exec_Invoked[OF ex] by (simp add: tr)
  from assms(1) have q1: "\<And>q. sent q (trace s) = recvd q (trace s) @ chan s q"
    and q2: "distinct (sent checkTxQueue (trace s) @ sent deliverTxQueue (trace s))"
    and q3: "\<And>q n. n \<in> set (sent q (trace s)) \<Longrightarrow>
        (\<exists>m. Invoked n m \<in> set (trace s) \<and> queue_of m = Some q) \<and>
        (\<forall>q'. Send q' \<notin> set (cont s (Host n)))"
    and q4: "\<And>q. cont s (Worker q) \<noteq> worker q \<Longrightarrow>
        recvd q (trace s) \<noteq> [] \<and> wcur s q = last (recvd q (trace s))"
    unfolding inv_q_def by blast+
  have hostc: "set (cont s1 (Host n)) \<subseteq> set (cont s (Host n))" for n
  proof (cases "t = Host n")
    case True
    from assms(2,3) ak have "(\<forall>c j. a \<noteq> When c j) \<and> a \<noteq> Again"
    proof (cases rule: thread_cases)
      case (host n' m)
      show ?thesis using body_not(7,8)[OF host(4)] by auto
    qed (use True in auto)
    then have "cont s1 t = k" using exec_cont_self[OF ex] True by simp
    then show ?thesis using ak True by auto
  next
    case False
    then show ?thesis using exec_cont_Host[OF ex, of n] by simp
  qed
  consider (send) q where "a = Send q" | (recv) q where "a = Recv q"
    | (other) "\<forall>q. a \<noteq> Send q" "\<forall>q. a \<noteq> Recv q"
    by blast
  then show ?thesis
  proof cases
    case other
    have e1: "sent q (trace s') = sent q (trace s)" "recvd q (trace s') = recvd q (trace s)" for q
      using other p by (simp_all add: tr recvd_def)
    have e2: "chan s' = chan s" "wcur s' = wcur s"
      using exec_chan[OF ex] exec_cur(1)[OF ex] other by (simp_all add: ch wc)
    have w: "cont s (Worker q) \<noteq> worker q" if "cont s' (Worker q) \<noteq> worker q" for q
    proof (cases "t = Worker q")
      case True
      then show ?thesis using ak other by (auto simp: worker_eq)
    next
      case False
      then show ?thesis using exec_cont_Worker[OF ex False] that by (simp add: co)
    qed
    show ?thesis
      unfolding inv_q_def e1 e2 iv
      using q1 q2 q3 q4 w hostc by (fastforce simp: co)
  next
    case (send q)
    from assms(2,3) ak[unfolded send] obtain n m where n: "t = Host n" "n < nitems s"
      "Invoked n m \<in> set (trace s)" "queue_of m = Some q" "\<forall>q'. Send q' \<notin> set k"
      by (rule who_Send)
    have cu: "cur s1 t = n" using exec_cur(2)[OF ex] send n(1) by simp
    have e1: "sent q' (trace s') = sent q' (trace s) @ (if q' = q then [n] else [])"
      "recvd q' (trace s') = recvd q' (trace s)" for q'
      using send p cu by (auto simp: tr recvd_def)
    have e2: "chan s' = (chan s)(q := chan s q @ [n])" "wcur s' = wcur s"
      using exec_Send(1)[OF ex[unfolded send]] exec_cur(1)[OF ex] send n(1)
      by (simp_all add: ch wc)
    have fresh: "n \<notin> set (sent q' (trace s))" for q'
      using q3[of n q'] ak send n(1) by auto
    have ck: "cont s' (Host n) = k"
      using exec_cont_self[OF ex] send n(1) by (simp add: co)
    have w: "cont s' (Worker q') = cont s (Worker q')" for q'
      using exec_cont_Worker[OF ex, of q'] n(1) by (simp add: co)
    have c3: "(\<exists>m. Invoked n' m \<in> set (trace s) \<and> queue_of m = Some q') \<and>
        (\<forall>q''. Send q'' \<notin> set (cont s' (Host n')))"
      if "n' \<in> set (sent q' (trace s'))" for q' n'
    proof (cases "n' = n")
      case True
      then have "q' = q" using that fresh[of q'] by (auto simp: e1 split: if_splits)
      then show ?thesis using n True ck by auto
    next
      case False
      then have "n' \<in> set (sent q' (trace s))" using that by (auto simp: e1 split: if_splits)
      then show ?thesis using q3[of n' q'] hostc[of n'] by (auto simp: co)
    qed
    have c2: "distinct (sent checkTxQueue (trace s') @ sent deliverTxQueue (trace s'))"
      using q2 fresh by (cases q) (auto simp: e1)
    show ?thesis
      unfolding inv_q_def iv
      using q1 q4 c2 c3 by (auto simp: e1 e2 w)
  next
    case (recv q)
    have tw: "t = Worker q" "cont s t = worker q"
      using who_Recv[OF assms(2,3) ak[unfolded recv]] by auto
    from ex[unfolded recv] obtain i rest where ir: "chan s q = i # rest"
      "chan s1 = (chan s)(q := rest)" "wcur s1 = (wcur s)(q := i)"
      by (rule exec_Recv) simp
    have cu: "cur s1 t = i" using tw(1) ir(3) by simp
    have e1: "sent q' (trace s') = sent q' (trace s)"
      "recvd q' (trace s') = recvd q' (trace s) @ (if q' = q then [i] else [])" for q'
      using recv p cu tw(1) by (auto simp: tr recvd_def)
    have ck: "cont s' (Worker q) \<noteq> worker q"
      using exec_cont_self[OF ex] recv tw ak by (auto simp: co worker_eq)
    have w: "cont s' (Worker q') = cont s (Worker q')" if "q' \<noteq> q" for q'
      using exec_cont_Worker[OF ex, of q'] tw(1) that by (simp add: co)
    have c4: "recvd q' (trace s') \<noteq> [] \<and> wcur s' q' = last (recvd q' (trace s'))"
      if "cont s' (Worker q') \<noteq> worker q'" for q'
    proof (cases "q' = q")
      case True
      then show ?thesis by (simp add: e1 wc ir)
    next
      case False
      then show ?thesis using q4[of q'] that w[OF False] by (simp add: e1 wc ir)
    qed
    have c3: "(\<exists>m. Invoked n' m \<in> set (trace s) \<and> queue_of m = Some q') \<and>
        (\<forall>q''. Send q'' \<notin> set (cont s' (Host n')))"
      if "n' \<in> set (sent q' (trace s'))" for q' n'
      using that q3[of n' q'] hostc[of n'] by (auto simp: e1 co)
    show ?thesis
      unfolding inv_q_def iv
      using q1 q2 c3 c4 by (auto simp: e1 ch ir)
  qed
qed

lemma inv_q_step:
  assumes "inv_q s" "inv_host s" "inv_prog s" "step A s l = Next s'"
  shows "inv_q s'"
proof (cases l)
  case (Invoke m x)
  with assms(4) have tr: "trace s' = trace s @ [Invoked (nitems s) m]"
    and co: "cont s' = (cont s)(Host (nitems s) := body m)"
    and ot: "chan s' = chan s" "wcur s' = wcur s"
    by (auto simp: emit_def)
  have e: "sent q (trace s') = sent q (trace s)" "recvd q (trace s') = recvd q (trace s)" for q
    by (simp_all add: tr recvd_def)
  have w: "cont s' (Worker q) = cont s (Worker q)" for q by (simp add: co)
  have lt: "n < nitems s" if "n \<in> set (sent q (trace s))" for n q
    using that assms(1,2) unfolding inv_q_def inv_host_def by blast
  have c3: "(\<exists>m. Invoked n m \<in> set (trace s') \<and> queue_of m = Some q) \<and>
        (\<forall>q'. Send q' \<notin> set (cont s' (Host n)))"
    if "n \<in> set (sent q (trace s))" for q n
    using that lt[OF that] assms(1) unfolding inv_q_def by (auto simp: tr co)
  show ?thesis
    unfolding inv_q_def e ot w using assms(1)[unfolded inv_q_def] c3 by blast
next
  case (Attach n)
  with assms(4) have e: "trace s' = trace s" "cont s' = cont s" "chan s' = chan s" "wcur s' = wcur s"
    by (auto simp: upd_item_def split: if_splits)
  show ?thesis unfolding inv_q_def e using assms(1)[unfolded inv_q_def] .
next
  case (Run t)
  with assms show ?thesis using inv_q_Run by blast
qed

subsection \<open>The order in which a worker works\<close>

lemma worker_distinct: "distinct (worker q)"
  by (cases q) (simp_all add: checkTxWorker_def deliverTxWorker_def)

lemma worker_suffix_ne:
  assumes "suffix (a # k) (worker q)"
  shows "k \<noteq> worker q" "drop j k \<noteq> worker q" "a \<notin> set k"
proof -
  have "length (a # k) \<le> length (worker q)" using assms by (rule suffix_length_le)
  moreover have "length (drop j k) \<le> length k" by simp
  ultimately show "k \<noteq> worker q" "drop j k \<noteq> worker q"
    by (metis Suc_n_not_le_n length_Cons, metis Suc_n_not_le_n length_Cons le_trans)
  have "distinct (a # k)" using assms worker_distinct by (metis distinct_suffix)
  then show "a \<notin> set k" by simp
qed

lemma worker_When:
  assumes "suffix (When c j # k) (worker q)" "x \<in> set k"
  shows "once x \<Longrightarrow> x \<in> set (drop j k)" "\<not> once x \<Longrightarrow> x \<noteq> Again \<Longrightarrow> x \<notin> set (drop j k)"
  using assms by (auto simp: worker_eq suffix_Cons)

lemma worker_Again:
  assumes "suffix (Again # k) (worker q)"
  shows "k = []"
  using assms by (auto simp: worker_eq suffix_Cons)

lemma pend_unchanged:
  assumes "cont s' (Worker q) = cont s (Worker q)" "wcur s' q = wcur s q"
  shows "pend s' q x = pend s q x"
  using assms by (simp add: pend_def)

lemma inv_F_init: "inv_F (init a)"
  by (simp add: inv_F_def init_def recvd_def wdid_def pend_def)


lemma subseq_snoc_same: "subseq xs ys \<Longrightarrow> subseq (xs @ [c]) (ys @ [c])"
  by (simp add: subseq_append)

lemma subseq_drop_last: "subseq (xs @ zs) ys \<Longrightarrow> subseq xs ys"
  by (meson subseq_order.order_trans subseq_rev_drop_many subseq_order.order_refl
      list_emb_append_mono list_emb_Nil prefix_imp_subseq prefixI)

lemma inv_F_Run:
  assumes "inv_F s" "inv_host s" "inv_prog s" "step A s (Run t) = Next s'"
  shows "inv_F s'"
proof -
  from assms(4) obtain a k s1 where ak: "cont s t = a # k"
    and ex: "exec A t a (s\<lparr>cont := (cont s)(t := k)\<rparr>) = Next s1"
    and s': "s' = emit (Did t a (cur s1 t)) s1"
    by (rule step_Run)
  have tr: "trace s' = trace s1 @ [Did t a (cur s1 t)]" by (simp add: s' emit_def)
  have co: "cont s' = cont s1" and wc: "wcur s' = wcur s1"
    by (simp_all add: s' emit_def)
  note p = exec_proj[OF ex, simplified]
  note c1 = exec_cont_cases[OF ex]
  have F: "subseq (wdid q x (trace s) @ pend s q x) (recvd q (trace s))"
    "once x \<Longrightarrow> recvd q (trace s) = wdid q x (trace s) @ pend s q x"
    if "x \<in> set (worker q)" for q x
    using assms(1) that unfolding inv_F_def by blast+
  have goal: "subseq (wdid q x (trace s') @ pend s' q x) (recvd q (trace s')) \<and>
       (once x \<longrightarrow> recvd q (trace s') = wdid q x (trace s') @ pend s' q x)"
    if xw: "x \<in> set (worker q)" for q x
  proof (cases "t = Worker q")
    case False
    have nr: "a \<noteq> Recv q" using who_Recv[OF assms(2,3), of t q k] ak False by auto
    have w: "cont s' (Worker q) = cont s (Worker q)"
      using exec_cont_Worker[OF ex False] False by (auto simp: co)
    have "wcur s' q = wcur s q"
    proof (cases "\<exists>q'. a = Recv q'")
      case True
      then obtain q' where q': "a = Recv q'" by blast
      from ex[unfolded q'] obtain i rest where "wcur s1 = (wcur s)(q' := i)"
        by (rule exec_Recv) simp
      then show ?thesis using nr q' by (simp add: wc)
    next
      case False
      then show ?thesis using exec_cur(1)[OF ex] by (simp add: wc)
    qed
    then have pe: "pend s' q x = pend s q x" using w by (rule pend_unchanged[rotated])
    have "wdid q y (trace s') = wdid q y (trace s)" for y
      using p(2) False by (simp add: tr)
    then show ?thesis using F[OF xw] pe by (simp add: recvd_def)
  next
    case True
    then have sf: "suffix (a # k) (worker q)"
      using assms(3) ak unfolding inv_prog_def by metis
    note ne = worker_suffix_ne[OF sf]
    let ?c = "wcur s q"
    consider (recv) "a = Recv q" | (again) "a = Again" | (whn) c j where "a = When c j"
      | (pop) "a \<noteq> Recv q" "a \<noteq> Again" "\<forall>c j. a \<noteq> When c j"
      by blast
    then show ?thesis
    proof cases
      case recv
      have W: "cont s (Worker q) = worker q" using who_Recv[OF assms(2,3) ak[unfolded recv]] True by auto
      from ex[unfolded recv] obtain i rest where ir: "chan s q = i # rest"
        "wcur s1 = (wcur s)(q := i)"
        by (rule exec_Recv) simp
      have cu: "cur s1 t = i" using True ir(2) by simp
      have W': "cont s' (Worker q) = k" using True recv by (simp add: co c1)
      have xk: "x \<in> set k \<longleftrightarrow> x \<noteq> Recv q"
        using xw ne(3) W ak True recv by auto
      have pe: "pend s q x = []" using W by (simp add: pend_def)
      have pe': "pend s' q x = (if x \<noteq> Recv q then [i] else [])"
        using W' ne(1) xk ir(2) by (simp add: pend_def wc)
      have wd: "wdid q y (trace s') = wdid q y (trace s) @ (if y = Recv q then [i] else [])" for y
        using p(2) True recv cu by (simp add: tr)
      have tot: "wdid q x (trace s') @ pend s' q x = (wdid q x (trace s) @ pend s q x) @ [i]"
        by (simp add: wd pe pe')
      have rc: "recvd q (trace s') = recvd q (trace s) @ [i]" by (simp add: recvd_def wd)
      have "subseq ((wdid q x (trace s) @ pend s q x) @ [i]) (recvd q (trace s) @ [i])"
        using F(1)[OF xw] by (rule subseq_snoc_same)
      moreover have "recvd q (trace s) @ [i] = (wdid q x (trace s) @ pend s q x) @ [i]" if "once x"
        using F(2)[OF xw that] by simp
      ultimately show ?thesis
        unfolding tot rc by blast
    next
      case again
      have k: "k = []" using worker_Again sf again by blast
      have cu: "cur s1 t = ?c" "wcur s' q = ?c"
        using exec_cur[OF ex] again True by (simp_all add: wc)
      have W': "cont s' (Worker q) = worker q" using True again by (simp add: co c1)
      have pe: "pend s q x = (if x = Again then [?c] else [])"
        using ak True again k by (auto simp: pend_def worker_eq)
      have pe': "pend s' q x = []" using W' by (simp add: pend_def)
      have wd: "wdid q y (trace s') = wdid q y (trace s) @ (if y = Again then [?c] else [])" for y
        using p(2) True again cu by (simp add: tr)
      have tot: "wdid q x (trace s') @ pend s' q x = wdid q x (trace s) @ pend s q x"
        by (simp add: wd pe pe')
      have rc: "recvd q (trace s') = recvd q (trace s)" by (simp add: recvd_def wd)
      show ?thesis unfolding tot rc using F[OF xw] by auto
    next
      case (whn c j)
      have cu: "cur s1 t = ?c" "wcur s' q = ?c"
        using exec_cur[OF ex] whn True by (simp_all add: wc)
      have W': "cont s' (Worker q) = k \<or> cont s' (Worker q) = drop j k"
        using True whn by (auto simp: co c1)
      have nw: "cont s (Worker q) \<noteq> worker q" "cont s' (Worker q) \<noteq> worker q"
        using ak True whn ne(1,2) W' by (auto simp: worker_eq)
      have wd: "wdid q y (trace s') = wdid q y (trace s) @ (if y = When c j then [?c] else [])" for y
        using p(2) True whn cu by (simp add: tr)
      have rc: "recvd q (trace s') = recvd q (trace s)" by (simp add: recvd_def wd)
      have pe: "pend s q x = (if x = When c j \<or> x \<in> set k then [?c] else [])"
        using ak True whn nw by (auto simp: pend_def)
      have pe': "pend s' q x = (if x \<in> set (cont s' (Worker q)) then [?c] else [])"
        using nw cu by (simp add: pend_def)
      have nk: "When c j \<notin> set k" using ne(3) whn by simp
      then have nd: "When c j \<notin> set (drop j' k)" for j' by (meson in_set_dropD)
      show ?thesis
      proof (cases "x = When c j")
        case True
        have "wdid q x (trace s') @ pend s' q x = wdid q x (trace s) @ pend s q x"
          unfolding wd pe pe' using True W' nk nd by auto
        then show ?thesis unfolding rc using F[OF xw] by auto
      next
        case xne: False
        show ?thesis
        proof (cases "x \<in> set (cont s' (Worker q)) \<longleftrightarrow> x \<in> set k")
          case True
          have "wdid q x (trace s') @ pend s' q x = wdid q x (trace s) @ pend s q x"
            unfolding wd pe pe' using xne True by auto
          then show ?thesis unfolding rc using F[OF xw] by auto
        next
          case False
          then have dr: "cont s' (Worker q) = drop j k" using W' by auto
          then have xk: "x \<in> set k" "x \<notin> set (drop j k)"
            using False by (auto dest: in_set_dropD)
          then have no: "\<not> once x" using worker_When(1)[OF sf[unfolded whn]] by blast
          have "wdid q x (trace s') @ pend s' q x = wdid q x (trace s)"
            unfolding wd pe' using xne xk dr by simp
          moreover have "subseq (wdid q x (trace s)) (recvd q (trace s))"
            using F(1)[OF xw] by (rule subseq_drop_last)
          ultimately show ?thesis unfolding rc using no by simp
        qed
      qed
    next
      case pop
      have nr: "\<forall>q'. a \<noteq> Recv q'"
      proof (intro allI notI)
        fix q' assume "a = Recv q'"
        then have "t = Worker q'" using who_Recv[OF assms(2,3), of t q' k] ak by simp
        then show False using True pop(1) \<open>a = Recv q'\<close> by simp
      qed
      have cu: "cur s1 t = ?c" "wcur s' q = ?c"
        using exec_cur[OF ex nr] True by (simp_all add: wc)
      have W': "cont s' (Worker q) = k"
        using True pop by (cases a) (auto simp: co c1)
      have nw: "cont s (Worker q) \<noteq> worker q"
        using ak True pop by (auto simp: worker_eq)
      have wd: "wdid q y (trace s') = wdid q y (trace s) @ (if y = a then [?c] else [])" for y
        using p(2) True cu by (simp add: tr)
      have rc: "recvd q (trace s') = recvd q (trace s)" using pop by (simp add: recvd_def wd)
      have pe: "pend s q x = (if x = a \<or> x \<in> set k then [?c] else [])"
        using ak True nw by (auto simp: pend_def)
      have pe': "pend s' q x = (if x \<in> set k then [?c] else [])"
        using W' ne(1) cu by (simp add: pend_def)
      have "wdid q x (trace s') @ pend s' q x = wdid q x (trace s) @ pend s q x"
        unfolding wd pe pe' using ne(3) by auto
      then show ?thesis unfolding rc using F[OF xw] by auto
    qed
  qed
  show ?thesis unfolding inv_F_def using goal by blast
qed

lemma inv_F_step:
  assumes "inv_F s" "inv_host s" "inv_prog s" "step A s l = Next s'"
  shows "inv_F s'"
proof (cases l)
  case (Invoke m x)
  with assms(4) have tr: "trace s' = trace s @ [Invoked (nitems s) m]"
    and co: "cont s' (Worker q) = cont s (Worker q)" and ot: "wcur s' = wcur s" for q
    by (auto simp: emit_def)
  have e: "wdid q x (trace s') = wdid q x (trace s)" "recvd q (trace s') = recvd q (trace s)"
    "pend s' q x = pend s q x" for q x
    by (simp_all add: tr recvd_def pend_def co ot)
  show ?thesis unfolding inv_F_def e using assms(1)[unfolded inv_F_def] .
next
  case (Attach n)
  with assms(4) have e0: "trace s' = trace s" "cont s' = cont s" "wcur s' = wcur s"
    by (auto simp: upd_item_def split: if_splits)
  have e: "pend s' q x = pend s q x" for q x by (simp add: pend_def e0)
  show ?thesis unfolding inv_F_def e e0 using assms(1)[unfolded inv_F_def] .
next
  case (Run t)
  with assms show ?thesis using inv_F_Run by blast
qed

lemma inv_F_once:
  assumes "inv_F s" "x \<in> set (worker q)" "once x"
  shows "recvd q (trace s) = wdid q x (trace s) @ pend s q x"
  using assms unfolding inv_F_def by blast

lemma inv_F_sub:
  assumes "inv_F s" "x \<in> set (worker q)"
  shows "subseq (wdid q x (trace s)) (recvd q (trace s))"
  using assms unfolding inv_F_def by (meson subseq_drop_last)

lemma once_in_worker [simp]: "once x \<Longrightarrow> x \<in> set (worker q)"
  by (cases x) (simp_all add: worker_eq)

subsection \<open>The callbacks\<close>

lemma exec_cbs:
  assumes "exec A t a s0 = Next s1"
  shows "gcbs q (trace s1) = gcbs q (trace s0) @
      (if t = Worker q \<and> (a = GlobalCallback \<or> (\<exists>m. a = Callback m)) then [cur s0 t] else [])"
    "rcbs q (trace s1) = rcbs q (trace s0) @
      (if t = Worker q \<and> a = ReqCallback \<and> cb (items s0 (cur s0 t)) then [cur s0 t] else [])"
  using assms
  by (cases a; auto simp: upd_item_def emit_def gcbs_def rcbs_def proj_snoc
      split: if_splits list.splits prod.splits)+

lemma cbs_snoc [simp]:
  "gcbs q (tr @ [Did t a n]) = gcbs q tr" "rcbs q (tr @ [Did t a n]) = rcbs q tr"
  "gcbs q (tr @ [Invoked n m]) = gcbs q tr" "rcbs q (tr @ [Invoked n m]) = rcbs q tr"
  by (simp_all add: gcbs_def rcbs_def proj_snoc)

lemma inv_E_init: "inv_E (init a)"
  by (simp add: inv_E_def init_def gcbs_def rcbs_def wdid_def)

lemma inv_E_step:
  assumes "inv_E s" "inv_host s" "inv_prog s" "step A s l = Next s'"
  shows "inv_E s'"
proof (cases l)
  case (Invoke m x)
  with assms(4) have tr: "trace s' = trace s @ [Invoked (nitems s) m]"
    by (auto simp: emit_def)
  show ?thesis unfolding inv_E_def tr using assms(1)[unfolded inv_E_def] by simp
next
  case (Attach n)
  with assms(4) have e0: "trace s' = trace s"
    by (auto simp: upd_item_def split: if_splits)
  show ?thesis unfolding inv_E_def e0 using assms(1)[unfolded inv_E_def] .
next
  case (Run t)
  from assms(4)[unfolded Run] obtain a k s1 where ak: "cont s t = a # k"
    and ex: "exec A t a (s\<lparr>cont := (cont s)(t := k)\<rparr>) = Next s1"
    and s': "s' = emit (Did t a (cur s1 t)) s1"
    by (rule step_Run)
  let ?s0 = "s\<lparr>cont := (cont s)(t := k)\<rparr>"
  have tr: "trace s' = trace s1 @ [Did t a (cur s1 t)]" by (simp add: s' emit_def)
  note p = exec_proj[OF ex, simplified] and c = exec_cbs[OF ex, simplified]
  have goal: "gcbs q (trace s') = wdid q GlobalCallback (trace s') \<and>
         subseq (rcbs q (trace s')) (wdid q ReqCallback (trace s'))" for q
  proof (cases "t = Worker q")
    case False
    then show ?thesis using assms(1) unfolding inv_E_def by (simp add: tr p c)
  next
    case True
    then have sf: "suffix (a # k) (worker q)"
      using assms(3) ak unfolding inv_prog_def by metis
    have nc: "\<forall>m. a \<noteq> Callback m" using worker_only[OF sf] by (auto simp: worker_eq)
    have cu: "cur s1 t = cur ?s0 t" if "a = GlobalCallback \<or> a = ReqCallback"
      using exec_cur(2)[OF ex] that by auto
    have g: "gcbs q (trace s) = wdid q GlobalCallback (trace s)"
      and r: "subseq (rcbs q (trace s)) (wdid q ReqCallback (trace s))"
      using assms(1) unfolding inv_E_def by blast+
    have 1: "gcbs q (trace s') = wdid q GlobalCallback (trace s')"
      using g nc cu True by (simp add: tr p c)
    have 2: "subseq (rcbs q (trace s')) (wdid q ReqCallback (trace s'))"
    proof (cases "a = ReqCallback")
      case rc: True
      have "subseq (rcbs q (trace s) @ [cur ?s0 t]) (wdid q ReqCallback (trace s) @ [cur ?s0 t])"
        using r by (rule subseq_snoc_same)
      moreover have "subseq (rcbs q (trace s)) (wdid q ReqCallback (trace s) @ [cur ?s0 t])"
        using r by (meson subseq_order.order_trans prefix_imp_subseq prefixI)
      ultimately show ?thesis using True rc cu by (simp add: tr p c)
    next
      case False
      then show ?thesis using r by (simp add: tr p c)
    qed
    show ?thesis using 1 2 by simp
  qed
  show ?thesis unfolding inv_E_def using goal by blast
qed

lemma invs1_reachable:
  assumes "reachable A a s"
  shows "invs1 s"
proof -
  from assms obtain ls where r: "run A (init a) ls = Next s" by (auto simp: reachable_def)
  show ?thesis
    using r
  proof (rule run_induct)
    show "invs1 (init a)"
      unfolding invs1_def
      by (intro conjI inv_rw_init inv_wf_init inv_host_init inv_prog_init inv_q_init inv_F_init
          inv_E_init)
  next
    fix s l s' assume i: "invs1 s" and st: "step A s l = Next s'"
    from i have h: "inv_host s" "inv_wf s" "inv_rw s" "inv_prog s" "inv_q s" "inv_F s" "inv_E s"
      by (simp_all add: invs1_def)
    show "invs1 s'"
      unfolding invs1_def
      by (intro conjI inv_host_step[OF h(1) st] inv_wf_step[OF h(2) st]
          inv_rw_step[OF h(3,2,1) st] inv_prog_step[OF h(4) st] inv_q_step[OF h(5,1,4) st]
          inv_F_step[OF h(6,1,4) st] inv_E_step[OF h(7,1,4) st])
  qed
qed

subsection \<open>Capacity\<close>

lemma exec_trace_Host:
  assumes "exec A t a s0 = Next s1" "Did (Host n) b i \<in> set (trace s1)"
  shows "Did (Host n) b i \<in> set (trace s0)"
  using assms
  by (cases a) (auto simp: upd_item_def emit_def split: if_splits list.splits prod.splits)

lemma inv_cap_init: "inv_cap (init a)"
  by (simp add: inv_cap_def init_def)

lemma inv_cap_step:
  assumes "inv_cap s" "step A s l = Next s'"
  shows "inv_cap s'"
proof (cases l)
  case (Invoke m x)
  with assms(2) have "trace s' = trace s @ [Invoked (nitems s) m]" "chan s' = chan s"
    by (auto simp: emit_def)
  then show ?thesis using assms(1) by (auto simp: inv_cap_def)
next
  case (Attach n)
  with assms(2) have "trace s' = trace s" "chan s' = chan s"
    by (auto simp: upd_item_def split: if_splits)
  then show ?thesis using assms(1) by (auto simp: inv_cap_def)
next
  case (Run t)
  from assms(2)[unfolded Run] obtain a k s1 where ak: "cont s t = a # k"
    and ex: "exec A t a (s\<lparr>cont := (cont s)(t := k)\<rparr>) = Next s1"
    and s': "s' = emit (Did t a (cur s1 t)) s1"
    by (rule step_Run)
  have tr: "trace s' = trace s1 @ [Did t a (cur s1 t)]" and ch: "chan s' = chan s1"
    by (simp_all add: s' emit_def)
  have old: "length (chan s q) \<le> capacity q" for q using assms(1) by (simp add: inv_cap_def)
  have 1: "length (chan s' q) \<le> capacity q" for q
  proof -
    consider (send) q' where "a = Send q'" | (recv) q' where "a = Recv q'"
      | (other) "\<forall>q. a \<noteq> Send q" "\<forall>q. a \<noteq> Recv q"
      by blast
    then show ?thesis
    proof cases
      case (send q')
      then show ?thesis using exec_Send[OF ex[unfolded send]] old[of q] by (auto simp: ch)
    next
      case (recv q')
      from ex[unfolded recv] obtain i rest where "chan s q' = i # rest" "chan s1 = (chan s)(q' := rest)"
        by (rule exec_Recv) simp
      then show ?thesis using old[of q] by (auto simp: ch)
    next
      case other
      then show ?thesis using exec_chan[OF ex] old[of q] by (simp add: ch)
    qed
  qed
  have 2: "i = n" if "Did (Host n) b i \<in> set (trace s')" for n b i
  proof (cases "Did (Host n) b i \<in> set (trace s1)")
    case True
    then have "Did (Host n) b i \<in> set (trace s)" using exec_trace_Host[OF ex] by simp
    then show ?thesis using assms(1) unfolding inv_cap_def by blast
  next
    case False
    then have "Did (Host n) b i = Did t a (cur s1 t)" using that by (simp add: tr)
    then show ?thesis by auto
  qed
  show ?thesis unfolding inv_cap_def using 1 2 by blast
qed

lemma inv_cap_reachable:
  assumes "reachable A a s"
  shows "inv_cap s"
proof -
  from assms obtain ls where r: "run A (init a) ls = Next s" by (auto simp: reachable_def)
  show ?thesis using r by (rule run_induct) (rule inv_cap_init, erule (1) inv_cap_step)
qed

lemma run_append:
  "run A s (ls @ ls') = (case run A s ls of Next s1 \<Rightarrow> run A s1 ls' | Blocked \<Rightarrow> Blocked
     | Panic f \<Rightarrow> Panic f)"
  by (induction ls arbitrary: s) (auto split: outcome.splits)

lemma sent_mem: "n \<in> set (sent q tr) \<longleftrightarrow> (\<exists>t. Did t (Send q) n \<in> set tr)"
proof (induction tr rule: rev_induct)
  case Nil
  then show ?case by (simp add: sent_def)
next
  case (snoc e tr)
  show ?case
  proof (cases e)
    case (Did t a i)
    then show ?thesis using snoc by auto
  qed (use snoc in \<open>auto simp: sent_def proj_snoc\<close>)
qed

lemma acts_mem: "b \<in> set (acts t tr) \<longleftrightarrow> (\<exists>i. Did t b i \<in> set tr)"
proof (induction tr rule: rev_induct)
  case Nil
  then show ?case by (simp add: acts_def)
next
  case (snoc e tr)
  show ?case
  proof (cases e)
    case (Did t' a i)
    then show ?thesis using snoc by auto
  qed (use snoc in auto)
qed

lemma body_returned:
  assumes "xs @ k = body m" "Return \<in> set xs"
  shows "k = []"
proof (rule ccontr)
  assume "k \<noteq> []"
  then have "last k = last (body m)" using assms(1) by (metis last_appendR)
  moreover have "last (body m) = Return" by (cases m) simp_all
  ultimately have "Return \<in> set k" using \<open>k \<noteq> []\<close> by (metis last_in_set)
  moreover have "distinct (body m)" by (cases m) simp_all
  ultimately show False using assms by (metis disjoint_iff distinct_append)
qed

lemma body_has_Send: "queue_of m = Some q \<Longrightarrow> Send q \<in> set (body m)"
  by (cases m) auto

subsection \<open>The ordering gate\<close>

lemma host_pipeline:
  assumes "suffix (a # k) (body m)" "queue_of m = Some q"
  shows "a = MtxLock \<Longrightarrow> Send q \<in> set k \<and> MtxLock \<notin> set k \<and> Schedule (pool_of q) \<in> set k"
    "a = NewMtx \<Longrightarrow> MtxLock \<in> set k"
    "a = NewReqRes mg \<Longrightarrow> MtxLock \<in> set k"
    "a = Schedule p \<Longrightarrow> p = pool_of q \<and> Schedule p \<notin> set k \<and> MtxLock \<notin> set k"
    "MtxLock \<in> set k \<Longrightarrow> a = NewMtx \<or> (\<exists>mg. a = NewReqRes mg)"
  using assms by (cases m; auto simp: suffix_Cons)+

lemma host_after_Send:
  assumes "suffix h (body m)" "queue_of m = Some q" "Send q \<notin> set h"
  shows "MtxLock \<notin> set h" "NewMtx \<notin> set h" "\<forall>mg. NewReqRes mg \<notin> set h"
  using assms by (cases m; auto simp: suffix_Cons suffix_Nil)+

lemma host_after_Schedule:
  assumes "xs @ h = body m" "queue_of m = Some q" "Schedule (pool_of q) \<notin> set h"
  shows "WgAdd \<in> set xs"
proof -
  have "suffix h (body m)" using assms(1) by (metis suffixI)
  then have "WgAdd \<notin> set h" using assms(2,3) by (cases m; auto simp: suffix_Cons suffix_Nil)
  moreover have "WgAdd \<in> set (body m)" using assms(2) by (cases m) auto
  ultimately show ?thesis using assms(1) by (metis Un_iff set_append)
qed

lemma closure_pos:
  assumes "suffix (a # k) (closure p)"
  shows "a = MtxUnlock \<longleftrightarrow> k = []" "a = When c j \<Longrightarrow> drop j k \<noteq> []"
    "\<forall>p'. a \<noteq> Schedule p'" "a \<noteq> MtxLock" "a \<noteq> NewMtx" "\<forall>q. a \<noteq> Recv q" "a \<noteq> Again"
  using assms by (cases p; auto simp: suffix_Cons)+

lemma worker_gate:
  assumes "suffix (a # k) (worker q)"
  shows "a = MtxUnlock \<Longrightarrow> MtxLock \<notin> set k"
    "a = Recv q' \<Longrightarrow> MtxLock \<in> set k"
    "a = When c j \<Longrightarrow> (MtxLock \<in> set (drop j k) \<longleftrightarrow> MtxLock \<in> set k)"
    "\<forall>p'. a \<noteq> Schedule p'" "a \<noteq> NewMtx"
  using assms by (auto simp: worker_eq suffix_Cons)

lemma exec_mtx:
  assumes "exec A t a s0 = Next s1"
  shows "mtx (items s1 n) =
     (if cur s0 t = n \<and> (a = NewMtx \<or> a = MtxUnlock) then False
      else if cur s0 t = n \<and> a = MtxLock then True else mtx (items s0 n))"
    "a = MtxLock \<Longrightarrow> \<not> mtx (items s0 (cur s0 t))"
  using assms
  by (cases a; auto simp: upd_item_def emit_def split: if_splits list.splits prod.splits)+

lemma pipeline_mono:
  assumes "step A s l = Next s'" "pipeline s n q"
  shows "pipeline s' n q"
proof (cases l)
  case (Invoke m x)
  with assms show ?thesis by (auto simp: pipeline_def emit_def)
next
  case (Attach i)
  with assms show ?thesis by (auto simp: pipeline_def upd_item_def split: if_splits)
next
  case (Run t)
  from assms(1)[unfolded Run] obtain a k s1 where
    ex: "exec A t a (s\<lparr>cont := (cont s)(t := k)\<rparr>) = Next s1"
    and s': "s' = emit (Did t a (cur s1 t)) s1"
    by (rule step_Run)
  show ?thesis using assms(2) exec_Invoked[OF ex] by (auto simp: pipeline_def s' emit_def)
qed

lemma gate_cong:
  assumes "gate s n q"
    "cont s' (Task n) = cont s (Task n)" "cont s' (Host n) = cont s (Host n)"
    "acts (Task n) (trace s') = acts (Task n) (trace s)" "mtx (items s' n) = mtx (items s n)"
    "\<And>q'. past_gate s' q' \<Longrightarrow> wcur s' q' = n \<Longrightarrow> past_gate s q' \<and> wcur s q' = n"
  shows "gate s' n q"
  using assms(1,6) unfolding gate_def assms(2,3,4,5) by blast

lemma inv_gate_init: "inv_gate (init a)"
  by (simp add: inv_gate_def pipeline_def init_def acts_def)

lemma worker_mid_sent:
  assumes "inv_q s" "cont s (Worker q') \<noteq> worker q'"
  shows "wcur s q' \<in> set (sent q' (trace s))"
proof -
  from assms have "recvd q' (trace s) \<noteq> [] \<and> wcur s q' = last (recvd q' (trace s))"
    unfolding inv_q_def by blast
  then have "wcur s q' \<in> set (recvd q' (trace s))" by (metis last_in_set)
  moreover have "sent q' (trace s) = recvd q' (trace s) @ chan s q'"
    using assms(1) unfolding inv_q_def by blast
  ultimately show ?thesis by simp
qed

lemma sent_host:
  assumes "inv_q s" "n \<in> set (sent q' (trace s))"
  shows "Send q'' \<notin> set (cont s (Host n))" "pipeline s n q'"
  using assms unfolding inv_q_def pipeline_def by blast+

lemma gate_Run_Host:
  assumes "inv_host s" "inv_q s" "gate s n q" "Invoked n m \<in> set (trace s)" "queue_of m = Some q"
    "cont s (Host n) = a # k"
    "exec A (Host n) a (s\<lparr>cont := (cont s)((Host n) := k)\<rparr>) = Next s1"
  shows "gate (emit (Did (Host n) a n) s1) n q"
proof -
  let ?t = "Host n"
  let ?s' = "emit (Did ?t a n) s1"
  let ?p = "pool_of q"
  note ex = assms(7)
  have "acts (Host n) (trace s) @ cont s (Host n) = body m"
    using assms(1,4) unfolding inv_host_def by blast
  then have sf: "suffix (a # k) (body m)" using assms(6) by (metis suffixI)
  note hp = host_pipeline[OF sf assms(5)]
  note bn = body_not[OF sf]
  note c1 = exec_cont_cases[OF ex]
  have sp: "a = Schedule p' \<Longrightarrow> p' = ?p" for p' using hp(4) by blast
  have cH: "cont ?s' (Host n) = k"
    using bn(7,8) by (cases a) (auto simp: emit_def c1)
  have cT: "cont ?s' (Task n) = (if a = Schedule ?p then closure ?p else cont s (Task n))"
    using bn(7,8) sp by (cases a) (auto simp: emit_def c1)
  have cW: "cont ?s' (Worker q') = cont s (Worker q')" for q'
    using exec_cont_Worker[OF ex, of q'] by (simp add: emit_def)
  have wc: "wcur ?s' = wcur s"
    using exec_cur(1)[OF ex] bn(1) by (simp add: emit_def)
  have pg: "past_gate ?s' q' = past_gate s q'" for q'
    unfolding past_gate_def cW ..
  have ac: "acts (Task n) (trace ?s') = acts (Task n) (trace s)"
    using exec_acts[OF ex, of "Task n"] by (simp add: emit_def)
  have mx: "mtx (items ?s' n) =
     (if a = NewMtx then False else if a = MtxLock then True else mtx (items s n))"
    using exec_mtx(1)[OF ex, of n] bn(6) by (simp add: emit_def)
  from assms(3) have g1: "suffix (cont s (Task n)) (closure ?p)"
    and g2: "Schedule ?p \<in> set (cont s (Host n)) \<Longrightarrow>
        cont s (Task n) = [] \<and> acts (Task n) (trace s) = []"
    and g3: "MtxLock \<notin> set (cont s (Host n)) \<Longrightarrow>
        Schedule ?p \<in> set (cont s (Host n)) \<or> cont s (Task n) \<noteq> [] \<Longrightarrow>
        mtx (items s n) \<and> (\<forall>q'. past_gate s q' \<longrightarrow> wcur s q' \<noteq> n)"
    and g4: "MtxLock \<notin> set (cont s (Host n)) \<Longrightarrow> Schedule ?p \<notin> set (cont s (Host n)) \<Longrightarrow>
        cont s (Task n) = [] \<Longrightarrow> MtxUnlock \<in> set (acts (Task n) (trace s))"
    unfolding gate_def by blast+
  have n1: "suffix (cont ?s' (Task n)) (closure ?p)"
    unfolding cT using g1 by simp
  have n2: "cont ?s' (Task n) = [] \<and> acts (Task n) (trace ?s') = []"
    if "Schedule ?p \<in> set (cont ?s' (Host n))"
  proof -
    from that have k: "Schedule ?p \<in> set k" by (simp add: cH)
    then have "a \<noteq> Schedule ?p" using hp(4) by blast
    moreover have "Schedule ?p \<in> set (cont s (Host n))" using k assms(6) by simp
    ultimately show ?thesis using g2 by (simp add: cT ac)
  qed
  have n3: "mtx (items ?s' n) \<and> (\<forall>q'. past_gate ?s' q' \<longrightarrow> wcur ?s' q' \<noteq> n)"
    if a1: "MtxLock \<notin> set (cont ?s' (Host n))"
      and a2: "Schedule ?p \<in> set (cont ?s' (Host n)) \<or> cont ?s' (Task n) \<noteq> []"
  proof (cases "a = MtxLock")
    case True
    have "wcur s q' \<noteq> n" if "past_gate s q'" for q'
    proof
      assume e: "wcur s q' = n"
      from that have "cont s (Worker q') \<noteq> worker q'" by (simp add: past_gate_def)
      then have "n \<in> set (sent q' (trace s))" using worker_mid_sent[OF assms(2)] e by metis
      then have "Send q \<notin> set (cont s (Host n))" using sent_host(1)[OF assms(2)] by blast
      then show False using hp(1)[OF True] assms(6) by simp
    qed
    then show ?thesis unfolding mx pg wc using True by simp
  next
    case False
    from a1 have k: "MtxLock \<notin> set k" by (simp add: cH)
    then have nm: "a \<noteq> NewMtx" using hp(2) by blast
    have h: "MtxLock \<notin> set (cont s (Host n))" using k False assms(6) by simp
    have "Schedule ?p \<in> set (cont s (Host n)) \<or> cont s (Task n) \<noteq> []"
    proof (cases "a = Schedule ?p")
      case True
      then show ?thesis using assms(6) by simp
    next
      case False
      then show ?thesis using a2 assms(6) by (auto simp: cH cT)
    qed
    from g3[OF h this] show ?thesis using False nm by (simp add: mx pg wc)
  qed
  have n4: "MtxUnlock \<in> set (acts (Task n) (trace ?s'))"
    if a1: "MtxLock \<notin> set (cont ?s' (Host n))"
      and a2: "Schedule ?p \<notin> set (cont ?s' (Host n))"
      and a3: "cont ?s' (Task n) = []"
  proof -
    from a1 have k: "MtxLock \<notin> set k" by (simp add: cH)
    have ns: "a \<noteq> Schedule ?p" using a3 by (cases ?p) (auto simp: cT)
    have nl: "a \<noteq> MtxLock" using hp(1) a2 by (auto simp: cH)
    have h1: "MtxLock \<notin> set (cont s (Host n))" using k nl assms(6) by simp
    have h2: "Schedule ?p \<notin> set (cont s (Host n))" using a2 ns assms(6) by (simp add: cH)
    have h3: "cont s (Task n) = []" using a3 ns by (simp add: cT)
    show ?thesis using g4[OF h1 h2 h3] by (simp add: ac)
  qed
  show ?thesis unfolding gate_def using n1 n2 n3 n4 by blast
qed

lemma gate_Run_Task:
  assumes "gate s n q" "cont s (Task n) = a # k"
    "exec A (Task n) a (s\<lparr>cont := (cont s)((Task n) := k)\<rparr>) = Next s1"
  shows "gate (emit (Did (Task n) a n) s1) n q"
proof -
  let ?t = "Task n"
  let ?s' = "emit (Did ?t a n) s1"
  let ?p = "pool_of q"
  note ex = assms(3)
  from assms(1) have g1: "suffix (cont s (Task n)) (closure ?p)"
    and g2: "Schedule ?p \<in> set (cont s (Host n)) \<Longrightarrow>
        cont s (Task n) = [] \<and> acts (Task n) (trace s) = []"
    and g3: "MtxLock \<notin> set (cont s (Host n)) \<Longrightarrow>
        Schedule ?p \<in> set (cont s (Host n)) \<or> cont s (Task n) \<noteq> [] \<Longrightarrow>
        mtx (items s n) \<and> (\<forall>q'. past_gate s q' \<longrightarrow> wcur s q' \<noteq> n)"
    unfolding gate_def by blast+
  have sf: "suffix (a # k) (closure ?p)" using g1 assms(2) by simp
  then have sk: "suffix k (closure ?p)" by (rule suffix_ConsD)
  have sd: "suffix (drop j k) (closure ?p)" for j
    using sk suffix_drop suffix_order.trans by blast
  note cp = closure_pos[OF sf]
  note c1 = exec_cont_cases[OF ex]
  have cH: "cont ?s' (Host n) = cont s (Host n)"
    using exec_cont_Host[OF ex, of n] by (simp add: emit_def)
  have cT: "cont ?s' (Task n) = k \<or> (\<exists>c j. a = When c j \<and> cont ?s' (Task n) = drop j k)"
    using cp(3,7) by (cases a) (auto simp: emit_def c1)
  have cW: "cont ?s' (Worker q') = cont s (Worker q')" for q'
    using exec_cont_Worker[OF ex, of q'] by (simp add: emit_def)
  have wc: "wcur ?s' = wcur s"
    using exec_cur(1)[OF ex] cp(6) by (simp add: emit_def)
  have pg: "past_gate ?s' q' = past_gate s q'" for q'
    unfolding past_gate_def cW ..
  have ac: "acts (Task n) (trace ?s') = acts (Task n) (trace s) @ [a]"
    using exec_acts[OF ex, of "Task n"] by (simp add: emit_def)
  have mx: "mtx (items ?s' n) = (if a = MtxUnlock then False else mtx (items s n))"
    using exec_mtx(1)[OF ex, of n] cp(4,5) by (simp add: emit_def)
  have ns: "Schedule ?p \<notin> set (cont s (Host n))" using g2 assms(2) by auto
  have n1: "suffix (cont ?s' (Task n)) (closure ?p)" using cT sk sd by auto
  have n3: "mtx (items ?s' n) \<and> (\<forall>q'. past_gate ?s' q' \<longrightarrow> wcur ?s' q' \<noteq> n)"
    if a1: "MtxLock \<notin> set (cont ?s' (Host n))" and a2: "cont ?s' (Task n) \<noteq> []"
  proof -
    have "a \<noteq> MtxUnlock" using cT a2 cp(1) by auto
    moreover have "MtxLock \<notin> set (cont s (Host n))" using a1 by (simp add: cH)
    ultimately show ?thesis using g3 assms(2) by (simp add: mx pg wc)
  qed
  have n4: "MtxUnlock \<in> set (acts (Task n) (trace ?s'))" if a3: "cont ?s' (Task n) = []"
  proof -
    have "k = []" using cT a3 cp(2) by auto
    then have "a = MtxUnlock" using cp(1) by blast
    then show ?thesis unfolding ac by simp
  qed
  show ?thesis unfolding gate_def using n1 n3 n4 ns by (auto simp: cH)
qed

lemma gate_Run_Worker:
  assumes "gate s n q" "cont s (Worker q0) = a # k" "suffix (a # k) (worker q0)"
    "exec A (Worker q0) a (s\<lparr>cont := (cont s)((Worker q0) := k)\<rparr>) = Next s1"
  shows "gate (emit (Did (Worker q0) a i) s1) n q"
proof -
  let ?t = "Worker q0"
  let ?s' = "emit (Did ?t a i) s1"
  let ?s0 = "s\<lparr>cont := (cont s)(?t := k)\<rparr>"
  let ?p = "pool_of q"
  note ex = assms(4)
  note sf = assms(3)
  note wg = worker_gate[OF sf]
  note c1 = exec_cont_cases[OF ex]
  from assms(1) have g3: "MtxLock \<notin> set (cont s (Host n)) \<Longrightarrow>
        Schedule ?p \<in> set (cont s (Host n)) \<or> cont s (Task n) \<noteq> [] \<Longrightarrow>
        mtx (items s n) \<and> (\<forall>q'. past_gate s q' \<longrightarrow> wcur s q' \<noteq> n)"
    unfolding gate_def by blast
  have cH: "cont ?s' (Host n) = cont s (Host n)"
    using exec_cont_Host[OF ex, of n] by (simp add: emit_def)
  have cT: "cont ?s' (Task n) = cont s (Task n)"
    using wg(4) by (cases a) (auto simp: emit_def c1)
  have ac: "acts (Task n) (trace ?s') = acts (Task n) (trace s)"
    using exec_acts[OF ex, of "Task n"] by (simp add: emit_def)
  have cW: "cont ?s' (Worker q') = cont s (Worker q')" if "q' \<noteq> q0" for q'
    using wg(4) that by (cases a) (auto simp: emit_def c1)
  have hd: "a = Recv q0" if "a # k = worker q0"
    using that by (simp add: worker_eq)
  have n3: "mtx (items ?s' n) \<and> (\<forall>q'. past_gate ?s' q' \<longrightarrow> wcur ?s' q' \<noteq> n)"
    if a1: "MtxLock \<notin> set (cont s (Host n))"
      and a2: "Schedule ?p \<in> set (cont s (Host n)) \<or> cont s (Task n) \<noteq> []"
  proof -
    from g3[OF a1 a2] have m: "mtx (items s n)"
      and w: "\<And>q'. past_gate s q' \<Longrightarrow> wcur s q' \<noteq> n" by blast+
    show ?thesis
    proof (cases "\<exists>q'. a = Recv q'")
      case True
      then obtain q' where r: "a = Recv q'" by blast
      have k: "MtxLock \<in> set k" using wg(2)[OF r] .
      have q': "q' = q0" using sf r by (auto simp: worker_eq suffix_Cons)
      have ck: "cont ?s' (Worker q0) = k" using r by (simp add: emit_def c1)
      have np: "\<not> past_gate ?s' q0" unfolding past_gate_def ck using k by simp
      from ex[unfolded r] obtain j rest where "wcur s1 = (wcur ?s0)(q' := j)"
        by (rule exec_Recv)
      then have wc: "wcur ?s' q'' = wcur s q''" if "q'' \<noteq> q0" for q''
        using that q' by (simp add: emit_def)
      have mx: "mtx (items ?s' n) = mtx (items s n)"
        using exec_mtx(1)[OF ex, of n] r by (simp add: emit_def)
      have "wcur ?s' q'' \<noteq> n" if "past_gate ?s' q''" for q''
      proof (cases "q'' = q0")
        case True
        then show ?thesis using that np by simp
      next
        case False
        have "past_gate s q''" using that unfolding past_gate_def cW[OF False] .
        then show ?thesis using w wc[OF False] by simp
      qed
      then show ?thesis using m mx by blast
    next
      case False
      then have nr: "\<forall>q'. a \<noteq> Recv q'" by blast
      have wc: "wcur ?s' = wcur s"
        using exec_cur(1)[OF ex nr] by (simp add: emit_def)
      have mid: "cont s (Worker q0) \<noteq> worker q0"
        using hd nr assms(2) by metis
      have pq: "past_gate s q'" if "past_gate ?s' q'" "a \<noteq> MtxLock" for q'
      proof (cases "q' = q0")
        case True
        have "MtxLock \<notin> set (cont ?s' (Worker q0))" "cont ?s' (Worker q0) \<noteq> worker q0"
          using that(1) True by (simp_all add: past_gate_def)
        then have "MtxLock \<notin> set k"
          using wg(3) by (cases a) (auto simp: emit_def c1 split: if_splits)
        then show ?thesis using mid that(2) assms(2) True by (simp add: past_gate_def)
      next
        case False
        show ?thesis using that(1) unfolding past_gate_def cW[OF False] .
      qed
      show ?thesis
      proof (cases "a = MtxLock")
        case True
        have "\<not> mtx (items s (wcur s q0))"
          using exec_mtx(2)[OF ex True] by simp
        then have ne: "wcur s q0 \<noteq> n" using m by auto
        have mx: "mtx (items ?s' n) = mtx (items s n)"
          using exec_mtx(1)[OF ex, of n] True ne by (simp add: emit_def)
        have "wcur s q' \<noteq> n" if "past_gate ?s' q'" for q'
        proof (cases "q' = q0")
          case True
          then show ?thesis using ne by simp
        next
          case False
          have "past_gate s q'" using that unfolding past_gate_def cW[OF False] .
          then show ?thesis using w by simp
        qed
        then show ?thesis unfolding wc using m mx by blast
      next
        case False
        have ne: "wcur s q0 \<noteq> n" if "a = MtxUnlock"
        proof -
          have "past_gate s q0"
            using wg(1)[OF that] mid assms(2) that by (simp add: past_gate_def)
          then show ?thesis using w by simp
        qed
        have mx: "mtx (items ?s' n) = mtx (items s n)"
          using exec_mtx(1)[OF ex, of n] False wg(5) ne by (auto simp: emit_def)
        show ?thesis unfolding wc using m mx pq[OF _ False] w by blast
      qed
    qed
  qed
  show ?thesis
    using assms(1) n3 unfolding gate_def cH cT ac by blast
qed

lemma gate_Run_other:
  assumes "gate s n q" "cont s t = a # k" "cur s t \<noteq> n" "\<forall>q'. t \<noteq> Worker q'"
    "\<forall>q'. a \<noteq> Recv q'"
    "exec A t a (s\<lparr>cont := (cont s)(t := k)\<rparr>) = Next s1"
  shows "gate (emit (Did t a i) s1) n q"
proof (rule gate_cong[OF assms(1)])
  let ?s' = "emit (Did t a i) s1"
  note ex = assms(6)
  note c1 = exec_cont_cases[OF ex]
  have t: "t \<noteq> Host n" "t \<noteq> Task n" using assms(3) by auto
  show "cont ?s' (Task n) = cont s (Task n)"
    using t assms(3) by (cases a) (auto simp: emit_def c1)
  show "cont ?s' (Host n) = cont s (Host n)"
    using exec_cont_Host[OF ex t(1)] t(1) by (simp add: emit_def)
  show "acts (Task n) (trace ?s') = acts (Task n) (trace s)"
    using exec_acts[OF ex, of "Task n"] t(2) by (simp add: emit_def)
  show "mtx (items ?s' n) = mtx (items s n)"
    using exec_mtx(1)[OF ex, of n] assms(3) by (cases t) (auto simp: emit_def)
  fix q'
  assume p: "past_gate ?s' q'" and w: "wcur ?s' q' = n"
  have cW: "cont ?s' (Worker q') = cont s (Worker q')"
    using exec_cont_Worker[OF ex, of q'] assms(4) by (auto simp: emit_def)
  have wc: "wcur ?s' = wcur s"
    using exec_cur(1)[OF ex assms(5)] by (simp add: emit_def)
  show "past_gate s q' \<and> wcur s q' = n"
    using p w unfolding past_gate_def cW wc by simp
qed

lemma body_Schedule:
  assumes "suffix (Schedule p # k) (body m)"
  shows "\<exists>q. queue_of m = Some q"
  using assms by (cases m) (auto simp: suffix_Cons)

lemma body_has_MtxLock: "queue_of m = Some q \<Longrightarrow> MtxLock \<in> set (body m)"
  by (cases m) auto

lemma inv_gate_Invoke:
  assumes "inv_gate s" "inv_host s" "step A s (Invoke m x) = Next s'"
  shows "inv_gate s'"
proof -
  let ?N = "nitems s"
  have s': "s' = emit (Invoked ?N m)
      (s\<lparr>items := (items s)(?N := new_item x), nitems := Suc ?N,
         cont := (cont s)(Host ?N := body m)\<rparr>)"
    using assms(3) by simp
  have g0: "cont s (Task n) = [] \<and> acts (Task n) (trace s) = []"
    if "\<forall>q. \<not> pipeline s n q" for n
    using assms(1) that unfolding inv_gate_def by blast
  have pm: "pipeline s' n q" if "pipeline s n q" for n q
    using that by (auto simp: pipeline_def s' emit_def)
  have np: "\<not> pipeline s ?N q" for q
    using assms(2) unfolding pipeline_def inv_host_def by (metis less_irrefl)
  have cT: "cont s' (Task n) = cont s (Task n)" for n by (simp add: s' emit_def)
  have ac: "acts (Task n) (trace s') = acts (Task n) (trace s)" for n
    by (simp add: s' emit_def)
  have n0: "cont s' (Task n) = [] \<and> acts (Task n) (trace s') = []"
    if "\<forall>q. \<not> pipeline s' n q" for n
    unfolding cT ac using g0[of n] that pm by blast
  have n1: "gate s' n q" if p: "pipeline s' n q" for n q
  proof (cases "pipeline s n q")
    case True
    then have g: "gate s n q" using assms(1) unfolding inv_gate_def by blast
    from True have "n < ?N" using assms(2) unfolding pipeline_def inv_host_def by blast
    then have ne: "n \<noteq> ?N" by simp
    show ?thesis
    proof (rule gate_cong[OF g cT _ ac])
      show "cont s' (Host n) = cont s (Host n)" using ne by (simp add: s' emit_def)
      show "mtx (items s' n) = mtx (items s n)" using ne by (simp add: s' emit_def)
      show "past_gate s q' \<and> wcur s q' = n" if "past_gate s' q'" "wcur s' q' = n" for q'
        using that by (simp add: past_gate_def s' emit_def)
    qed
  next
    case False
    with p have e: "n = ?N" "queue_of m = Some q"
      by (auto simp: pipeline_def s' emit_def)
    have h: "cont s' (Host ?N) = body m" by (simp add: s' emit_def)
    have l: "MtxLock \<in> set (body m)" using e(2) by (rule body_has_MtxLock)
    have z: "cont s' (Task ?N) = []" "acts (Task ?N) (trace s') = []"
      unfolding cT ac using g0[of ?N] np by simp_all
    show ?thesis
      unfolding gate_def e(1) h z using l by simp
  qed
  show ?thesis unfolding inv_gate_def using n0 n1 by blast
qed

lemma inv_gate_Attach:
  assumes "inv_gate s" "step A s (Attach i) = Next s'"
  shows "inv_gate s'"
proof -
  have s': "s' = upd_item i (\<lambda>i. i\<lparr>cb := True\<rparr>) s"
    using assms(2) by (simp split: if_splits)
  have e: "cont s' = cont s" "trace s' = trace s" "nitems s' = nitems s" "wcur s' = wcur s"
    "mtx (items s' n) = mtx (items s n)" for n
    by (simp_all add: s' upd_item_def)
  have p: "pipeline s' n q = pipeline s n q" for n q by (simp add: pipeline_def e)
  have g: "gate s' n q = gate s n q" for n q by (simp add: gate_def past_gate_def e)
  show ?thesis using assms(1) unfolding inv_gate_def p g e .
qed

lemma inv_gate_Run:
  assumes "inv_gate s" "inv_host s" "inv_prog s" "inv_q s" "step A s (Run t) = Next s'"
  shows "inv_gate s'"
proof -
  from assms(5) obtain a k s1 where ak: "cont s t = a # k"
    and ex: "exec A t a (s\<lparr>cont := (cont s)(t := k)\<rparr>) = Next s1"
    and s': "s' = emit (Did t a (cur s1 t)) s1"
    by (rule step_Run)
  note c1 = exec_cont_cases[OF ex]
  have iv: "Invoked n m \<in> set (trace s') \<longleftrightarrow> Invoked n m \<in> set (trace s)" for n m
    using exec_Invoked[OF ex] by (simp add: s' emit_def)
  have p: "pipeline s' n q = pipeline s n q" for n q by (simp add: pipeline_def iv)
  have ni: "nitems s' = nitems s" using exec_nitems[OF ex] by (simp add: s' emit_def)
  have g0: "cont s (Task n) = [] \<and> acts (Task n) (trace s) = []"
    if "\<forall>q. \<not> pipeline s n q" for n
    using assms(1) that unfolding inv_gate_def by blast
  have n0: "cont s' (Task n) = [] \<and> acts (Task n) (trace s') = []"
    if "\<forall>q. \<not> pipeline s' n q" for n
  proof -
    from that have le: "\<forall>q. \<not> pipeline s n q" by (simp add: p)
    note g = g0[OF le]
    have t: "t \<noteq> Task n" using g ak by auto
    have "cur s t \<noteq> n" if sc: "a = Schedule p'" for p'
      using assms(2,3) ak
    proof (cases rule: thread_cases)
      case (host n' m)
      obtain q where "queue_of m = Some q"
        using body_Schedule host(4) sc by blast
      then have "pipeline s n' q" using host(3) unfolding pipeline_def by blast
      then show ?thesis using le host(1) by auto
    next
      case (task n' p'')
      then show ?thesis using closure_pos(3) sc by blast
    next
      case (worker q')
      then show ?thesis using worker_gate(4) sc by blast
    qed
    then have "cont s1 (Task n) = cont s (Task n)"
      using t by (cases a) (auto simp: c1)
    moreover have "acts (Task n) (trace s') = acts (Task n) (trace s)"
      using exec_acts[OF ex, of "Task n"] t by (simp add: s' emit_def)
    ultimately show ?thesis using g by (simp add: s' emit_def)
  qed
  have n1: "gate s' n q" if pl: "pipeline s n q" for n q
  proof -
    from pl have g: "gate s n q" using assms(1) unfolding inv_gate_def by blast
    from pl obtain m where m: "Invoked n m \<in> set (trace s)" "queue_of m = Some q"
      unfolding pipeline_def by blast
    from assms(2,3) ak show ?thesis
    proof (cases rule: thread_cases)
      case (host n' m')
      show ?thesis
      proof (cases "n' = n")
        case True
        have "cur s1 t = n" using host(1) True by simp
        then show ?thesis
          using gate_Run_Host[OF assms(2,4) g m, of a k A s1] ak ex host(1) True
          unfolding s' by simp
      next
        case False
        show ?thesis unfolding s'
        proof (rule gate_Run_other[OF g ak _ _ _ ex])
          show "cur s t \<noteq> n" using host(1) False by simp
          show "\<forall>q'. t \<noteq> Worker q'" using host(1) by simp
          show "\<forall>q'. a \<noteq> Recv q'" using body_not(1)[OF host(4)] by blast
        qed
      qed
    next
      case (task n' p')
      show ?thesis
      proof (cases "n' = n")
        case True
        have "cur s1 t = n" using task(1) True by simp
        then show ?thesis
          using gate_Run_Task[OF g, of a k A s1] ak ex task(1) True
          unfolding s' by simp
      next
        case False
        show ?thesis unfolding s'
        proof (rule gate_Run_other[OF g ak _ _ _ ex])
          show "cur s t \<noteq> n" using task(1) False by simp
          show "\<forall>q'. t \<noteq> Worker q'" using task(1) by simp
          show "\<forall>q'. a \<noteq> Recv q'" using closure_pos(6)[OF task(2)] by blast
        qed
      qed
    next
      case (worker q0)
      show ?thesis
        using gate_Run_Worker[OF g, of q0 a k A s1] ak ex worker
        unfolding s' by simp
    qed
  qed
  show ?thesis unfolding inv_gate_def using n0 n1 p by blast
qed

lemma inv_gate_step:
  assumes "inv_gate s" "inv_host s" "inv_prog s" "inv_q s" "step A s l = Next s'"
  shows "inv_gate s'"
proof (cases l)
  case (Invoke m x)
  then show ?thesis using inv_gate_Invoke assms(1,2,5) by blast
next
  case (Attach i)
  then show ?thesis using inv_gate_Attach assms(1,5) by blast
next
  case (Run t)
  then show ?thesis using inv_gate_Run assms by blast
qed

subsection \<open>The in-flight counter\<close>

lemma precedes_snoc:
  "x \<noteq> y \<Longrightarrow> precedes x y (tr @ [e]) = (precedes x y tr \<and> (e = y \<longrightarrow> x \<in> set tr))"
  by (induction tr) auto

lemma invs2_init: "invs2 (init a)"
  unfolding invs2_def invs1_def
  by (intro conjI inv_rw_init inv_wf_init inv_host_init inv_prog_init inv_q_init inv_F_init
      inv_E_init inv_cap_init inv_gate_init)

lemma invs2_step:
  assumes "invs2 s" "step A s l = Next s'"
  shows "invs2 s'"
proof -
  note st = assms(2)
  from assms(1) have h: "inv_host s" "inv_wf s" "inv_rw s" "inv_prog s" "inv_q s" "inv_F s"
    "inv_E s" "inv_cap s" "inv_gate s"
    by (simp_all add: invs2_def invs1_def)
  show ?thesis
    unfolding invs2_def invs1_def
    by (intro conjI inv_host_step[OF h(1) st] inv_wf_step[OF h(2) st]
        inv_rw_step[OF h(3,2,1) st] inv_prog_step[OF h(4) st] inv_q_step[OF h(5,1,4) st]
        inv_F_step[OF h(6,1,4) st] inv_E_step[OF h(7,1,4) st] inv_cap_step[OF h(8) st]
        inv_gate_step[OF h(9,1,4,5) st])
qed

lemma invs2_reachable:
  assumes "reachable A a s"
  shows "invs2 s"
proof -
  from assms obtain ls where r: "run A (init a) ls = Next s" by (auto simp: reachable_def)
  show ?thesis using r by (rule run_induct) (rule invs2_init, erule (1) invs2_step)
qed

lemma distinct_sent:
  assumes "inv_q s"
  shows "distinct (sent q (trace s))" "distinct (recvd q (trace s))"
    "q \<noteq> q' \<Longrightarrow> set (sent q (trace s)) \<inter> set (sent q' (trace s)) = {}"
    "set (recvd q (trace s)) \<subseteq> set (sent q (trace s))"
proof -
  have d: "distinct (sent checkTxQueue (trace s) @ sent deliverTxQueue (trace s))"
    and e: "sent q (trace s) = recvd q (trace s) @ chan s q"
    using assms unfolding inv_q_def by blast+
  show 1: "distinct (sent q (trace s))" using d by (cases q) auto
  show "distinct (recvd q (trace s))" using 1 unfolding e by simp
  show "set (sent q (trace s)) \<inter> set (sent q' (trace s)) = {}" if "q \<noteq> q'"
    using d that by (cases q; cases q') auto
  show "set (recvd q (trace s)) \<subseteq> set (sent q (trace s))" unfolding e by simp
qed

lemma wdid_once:
  assumes "inv_q s" "inv_F s" "once x"
  shows "distinct (wdid q x (trace s))" "set (wdid q x (trace s)) \<subseteq> set (sent q (trace s))"
    "cont s (Worker q) \<noteq> worker q \<Longrightarrow> x \<in> set (cont s (Worker q)) \<Longrightarrow>
      wcur s q \<notin> set (wdid q x (trace s))"
    "cont s (Worker q) \<noteq> worker q \<Longrightarrow> x \<notin> set (cont s (Worker q)) \<Longrightarrow>
      wcur s q \<in> set (wdid q x (trace s))"
proof -
  have e: "recvd q (trace s) = wdid q x (trace s) @ pend s q x"
    using assms(2) by (rule inv_F_once) (use assms(3) in simp_all)
  note d = distinct_sent[OF assms(1), of q]
  show "distinct (wdid q x (trace s))" using d(2) unfolding e by simp
  show "set (wdid q x (trace s)) \<subseteq> set (sent q (trace s))" using d(4) unfolding e by auto
  show "wcur s q \<notin> set (wdid q x (trace s))"
    if "cont s (Worker q) \<noteq> worker q" "x \<in> set (cont s (Worker q))"
    using d(2) that unfolding e by (simp add: pend_def)
  show "wcur s q \<in> set (wdid q x (trace s))"
    if m: "cont s (Worker q) \<noteq> worker q" and "x \<notin> set (cont s (Worker q))"
  proof -
    have p: "pend s q x = []" using that by (simp add: pend_def)
    have "recvd q (trace s) \<noteq> [] \<and> wcur s q = last (recvd q (trace s))"
      using assms(1) m unfolding inv_q_def by blast
    then have "wcur s q \<in> set (recvd q (trace s))" by (metis last_in_set)
    then show ?thesis unfolding e p by simp
  qed
qed

text \<open>A worker that has passed the gate of its item: the item was submitted to its
  pipeline, counted, and its closure has run to its end.\<close>

lemma past_gate_done:
  assumes "invs2 s" "cont s (Worker q) \<noteq> worker q"
    "past_gate s q \<or> \<not> mtx (items s (wcur s q))"
  shows "pipeline s (wcur s q) q" "Did (Host (wcur s q)) WgAdd (wcur s q) \<in> set (trace s)"
    "MtxUnlock \<in> set (acts (Task (wcur s q)) (trace s))" "cont s (Task (wcur s q)) = []"
    "wcur s q \<in> set (adds (trace s))"
proof -
  let ?n = "wcur s q"
  from assms(1) have h: "inv_host s" "inv_q s" "inv_cap s" "inv_gate s"
    by (simp_all add: invs2_def invs1_def)
  note mid = assms(2)
  have sn: "?n \<in> set (sent q (trace s))" using worker_mid_sent[OF h(2) mid] .
  show pl: "pipeline s ?n q" using sent_host(2)[OF h(2) sn] .
  then obtain m where m: "Invoked ?n m \<in> set (trace s)" "queue_of m = Some q"
    unfolding pipeline_def by blast
  have bd: "acts (Host ?n) (trace s) @ cont s (Host ?n) = body m"
    using h(1) m(1) unfolding inv_host_def by blast
  then have sf: "suffix (cont s (Host ?n)) (body m)" by (metis suffixI)
  have ns: "Send q \<notin> set (cont s (Host ?n))" using sent_host(1)[OF h(2) sn] .
  have nl: "MtxLock \<notin> set (cont s (Host ?n))" using host_after_Send(1)[OF sf m(2) ns] .
  have g: "gate s ?n q" using h(4) pl unfolding inv_gate_def by blast
  have n3: "\<not> (Schedule (pool_of q) \<in> set (cont s (Host ?n)) \<or> cont s (Task ?n) \<noteq> [])"
    using g nl assms(3) unfolding gate_def by blast
  then show t: "cont s (Task ?n) = []" by simp
  show "MtxUnlock \<in> set (acts (Task ?n) (trace s))"
    using g nl n3 unfolding gate_def by blast
  have "WgAdd \<in> set (acts (Host ?n) (trace s))"
    using host_after_Schedule[OF bd m(2)] n3 by blast
  then obtain i where "Did (Host ?n) WgAdd i \<in> set (trace s)" unfolding acts_mem by blast
  moreover from this have "i = ?n" using h(3) unfolding inv_cap_def by blast
  ultimately show a: "Did (Host ?n) WgAdd ?n \<in> set (trace s)" by simp
  have "n \<in> set (adds tr)" if "Did t WgAdd n \<in> set tr" for t n and tr :: "event list"
    using that
  proof (induction tr rule: rev_induct)
    case Nil
    then show ?case by simp
  next
    case (snoc e tr)
    show ?case
    proof (cases e)
      case (Did t' a' i')
      then show ?thesis using snoc by auto
    qed (use snoc in \<open>auto simp: adds_def proj_snoc\<close>)
  qed
  then show "?n \<in> set (adds (trace s))" using a by blast
qed

lemma task_running_added:
  assumes "invs2 s" "cont s (Task n) \<noteq> []"
  shows "Did (Host n) WgAdd n \<in> set (trace s)"
proof -
  from assms(1) have h: "inv_host s" "inv_cap s" "inv_gate s"
    by (simp_all add: invs2_def invs1_def)
  from h(3) assms(2) obtain q where pl: "pipeline s n q" unfolding inv_gate_def by blast
  then obtain m where m: "Invoked n m \<in> set (trace s)" "queue_of m = Some q"
    unfolding pipeline_def by blast
  have bd: "acts (Host n) (trace s) @ cont s (Host n) = body m"
    using h(1) m(1) unfolding inv_host_def by blast
  have g: "gate s n q" using h(3) pl unfolding inv_gate_def by blast
  have "Schedule (pool_of q) \<notin> set (cont s (Host n))"
    using g assms(2) unfolding gate_def by blast
  then have "WgAdd \<in> set (acts (Host n) (trace s))"
    using host_after_Schedule[OF bd m(2)] by blast
  then obtain i where "Did (Host n) WgAdd i \<in> set (trace s)" unfolding acts_mem by blast
  moreover from this have "i = n" using h(2) unfolding inv_cap_def by blast
  ultimately show ?thesis by simp
qed

lemma exec_Did:
  assumes "exec A t a s0 = Next s1"
  shows "Did u b i \<in> set (trace s1) \<longleftrightarrow> Did u b i \<in> set (trace s0)"
    "Did u b i \<noteq> Did u' b' i' \<Longrightarrow>
      precedes (Did u b i) (Did u' b' i') (trace s1) = precedes (Did u b i) (Did u' b' i') (trace s0)"
  using assms
  by (cases a; auto simp: upd_item_def emit_def precedes_snoc
      split: if_splits list.splits prod.splits)+

lemma exec_wg:
  assumes "exec A t a s0 = Next s1"
  shows "wgCommit s1 =
      (if a = WgAdd then Suc (wgCommit s0) else if a = WgDone then wgCommit s0 - 1
       else wgCommit s0)"
    "a = WgDone \<Longrightarrow> 0 < wgCommit s0"
  using assms
  by (cases a; auto simp: upd_item_def emit_def split: if_splits list.splits prod.splits)+

lemma who_WgDone:
  assumes "inv_host s" "inv_prog s" "cont s t = a # k" "a = WgDone \<or> a = MtxLock \<and> (\<forall>n. t \<noteq> Host n)"
  obtains q where "t = Worker q" "cont s t \<noteq> worker q" "MtxLock \<notin> set k"
  using assms(1,2,3)
proof (cases rule: thread_cases)
  case (host n m)
  then show ?thesis using body_not(2) assms(4) by blast
next
  case (task n p)
  then show ?thesis using closure_only assms(4) by blast
next
  case (worker q')
  have "cont s t \<noteq> worker q' \<and> MtxLock \<notin> set k"
    using worker(2) assms(3,4) by (auto simp: worker_eq suffix_Cons)
  then show ?thesis using that worker(1) by blast
qed

lemma wdid_mem: "n \<in> set (wdid q x tr) \<longleftrightarrow> Did (Worker q) x n \<in> set tr"
proof (induction tr rule: rev_induct)
  case Nil
  then show ?case by (simp add: wdid_def)
next
  case (snoc e tr)
  show ?case
  proof (cases e)
    case (Did t a i)
    then show ?thesis using snoc by auto
  qed (use snoc in \<open>auto simp: wdid_def proj_snoc\<close>)
qed

lemma inv_cnt_init: "inv_cnt (init a)"
  by (simp add: inv_cnt_def init_def adds_def dones_def wdid_def)

lemma inv_cnt_Run:
  assumes "inv_cnt s" "invs2 s" "step A s (Run t) = Next s'"
  shows "inv_cnt s'"
proof -
  from assms(3) obtain a k s1 where ak: "cont s t = a # k"
    and ex: "exec A t a (s\<lparr>cont := (cont s)(t := k)\<rparr>) = Next s1"
    and s': "s' = emit (Did t a (cur s1 t)) s1"
    by (rule step_Run)
  from assms(2) have h: "inv_host s" "inv_prog s" "inv_q s"
    by (simp_all add: invs2_def invs1_def)
  let ?i = "cur s1 t"
  have tr: "trace s' = trace s1 @ [Did t a ?i]" by (simp add: s' emit_def)
  note p = exec_proj[OF ex, simplified]
  note d = exec_Did[OF ex, simplified]
  note w = exec_wg[OF ex, simplified]
  have wg: "wgCommit s' = wgCommit s1" by (simp add: s' emit_def)
  from assms(1) have c1: "wgCommit s + length (dones (trace s)) = length (adds (trace s))"
    and c2: "length (dones (trace s)) =
       length (wdid checkTxQueue WgDone (trace s)) + length (wdid deliverTxQueue WgDone (trace s))"
    and c3: "\<And>q. set (wdid q WgDone (trace s)) \<subseteq> set (adds (trace s))"
    and c4: "\<And>n a i. Did (Task n) a i \<in> set (trace s) \<Longrightarrow> i = n"
    and c5: "\<And>n. precedes (Did (Host n) WgAdd n) (Did (Task n) MtxUnlock n) (trace s)"
    and c6: "\<And>n q. precedes (Did (Task n) MtxUnlock n) (Did (Worker q) MtxLock n) (trace s)"
    and c7: "\<And>n q. precedes (Did (Host n) WgAdd n) (Did (Worker q) WgDone n) (trace s)"
    and c8: "\<And>n q. precedes (Did (Worker q) MtxLock n) (Did (Worker q) WgDone n) (trace s)"
    and c9: "\<And>n q. precedes (Did (Worker q) MtxLock n) (Did (Worker q) MtxUnlock n) (trace s)"
    and c10: "\<And>t n. Did t MtxUnlock n \<in> set (trace s) \<Longrightarrow> t = Task n \<or> (\<exists>q. t = Worker q)"
    unfolding inv_cnt_def by blast+
  from assms(2) have F: "inv_F s" by (simp add: invs2_def invs1_def)
  have cu: "?i = cur s t" if "\<forall>q. a \<noteq> Recv q"
    using exec_cur(2)[OF ex that, of t] by (cases t) simp_all
  have n1: "wgCommit s' + length (dones (trace s')) = length (adds (trace s'))"
    unfolding wg tr adds_snoc p w(1) using c1 w(2) by auto
  have n2: "length (dones (trace s')) =
       length (wdid checkTxQueue WgDone (trace s')) + length (wdid deliverTxQueue WgDone (trace s'))"
  proof (cases "a = WgDone")
    case True
    from h(1,2) ak obtain q where q: "t = Worker q"
      by (rule who_WgDone) (use True in auto)
    show ?thesis unfolding tr adds_snoc wdid_snoc p using c2 q True by (cases q) auto
  next
    case False
    then show ?thesis unfolding tr adds_snoc wdid_snoc p using c2 by simp
  qed
  have n3: "set (wdid q WgDone (trace s')) \<subseteq> set (adds (trace s'))" for q
  proof (cases "t = Worker q \<and> a = WgDone")
    case True
    from h(1,2) ak obtain q' where q: "t = Worker q'" "cont s t \<noteq> worker q'" "MtxLock \<notin> set k"
      by (rule who_WgDone) (use True in auto)
    have pg: "past_gate s q" using q True ak by (auto simp: past_gate_def)
    have "?i = wcur s q" using cu True by auto
    moreover have "wcur s q \<in> set (adds (trace s))"
      using past_gate_done(5)[OF assms(2) _ disjI1[OF pg]] pg by (simp add: past_gate_def)
    ultimately show ?thesis unfolding tr adds_snoc wdid_snoc p using c3[of q] by auto
  next
    case False
    then show ?thesis unfolding tr adds_snoc wdid_snoc p using c3[of q] by auto
  qed
  have n4: "i = n" if "Did (Task n) b i \<in> set (trace s')" for n b i
  proof (cases "Did (Task n) b i \<in> set (trace s1)")
    case True
    then show ?thesis using c4 d(1) by blast
  next
    case False
    then have "Did (Task n) b i = Did t a ?i" using that by (simp add: tr)
    then show ?thesis by auto
  qed
  have n5: "precedes (Did (Host n) WgAdd n) (Did (Task n) MtxUnlock n) (trace s')" for n
  proof -
    have "Did (Host n) WgAdd n \<in> set (trace s)" if "Did t a ?i = Did (Task n) MtxUnlock n"
    proof -
      have "cont s (Task n) \<noteq> []" using that ak by auto
      then show ?thesis using task_running_added[OF assms(2)] by blast
    qed
    then show ?thesis unfolding tr using c5[of n] by (auto simp: precedes_snoc d)
  qed
  have n6: "precedes (Did (Task n) MtxUnlock n) (Did (Worker q) MtxLock n) (trace s')" for n q
  proof -
    have "Did (Task n) MtxUnlock n \<in> set (trace s)" if e: "Did t a ?i = Did (Worker q) MtxLock n"
    proof -
      from e have t: "t = Worker q" "a = MtxLock" "?i = n" by blast+
      from h(1,2) ak obtain q' where q: "t = Worker q'" "cont s t \<noteq> worker q'"
        by (rule who_WgDone) (use t in auto)
      have mid: "cont s (Worker q) \<noteq> worker q" using q t(1) by simp
      have n: "wcur s q = n" using cu t by auto
      have "\<not> mtx (items s (wcur s q))" using exec_mtx(2)[OF ex t(2)] t(1) by simp
      then have "MtxUnlock \<in> set (acts (Task n) (trace s))"
        using past_gate_done(3)[OF assms(2) mid] n by blast
      then obtain j where "Did (Task n) MtxUnlock j \<in> set (trace s)" unfolding acts_mem by blast
      moreover from this have "j = n" using c4 by blast
      ultimately show ?thesis by simp
    qed
    then show ?thesis unfolding tr using c6[of n q] by (auto simp: precedes_snoc d)
  qed
  have n7: "precedes (Did (Host n) WgAdd n) (Did (Worker q) WgDone n) (trace s')" for n q
  proof -
    have "Did (Host n) WgAdd n \<in> set (trace s)" if e: "Did t a ?i = Did (Worker q) WgDone n"
    proof -
      from e have t: "t = Worker q" "a = WgDone" "?i = n" by blast+
      from h(1,2) ak obtain q' where q: "t = Worker q'" "cont s t \<noteq> worker q'" "MtxLock \<notin> set k"
        by (rule who_WgDone) (use t in auto)
      have mid: "cont s (Worker q) \<noteq> worker q" using q t(1) by simp
      have pg: "past_gate s q" using q t ak by (auto simp: past_gate_def)
      have n: "wcur s q = n" using cu t by auto
      show ?thesis using past_gate_done(2)[OF assms(2) mid disjI1[OF pg]] n by simp
    qed
    then show ?thesis unfolding tr using c7[of n q] by (auto simp: precedes_snoc d)
  qed
  have locked: "Did (Worker q) MtxLock n \<in> set (trace s)"
    if e: "Did t a ?i = Did (Worker q) b n" and b: "b = WgDone \<or> b = MtxUnlock" for q b n
  proof -
    from e have t: "t = Worker q" "a = b" "?i = n" by blast+
    have sf: "suffix (a # k) (worker q)" using h(2) ak t(1) unfolding inv_prog_def by metis
    have mid: "cont s (Worker q) \<noteq> worker q" "MtxLock \<notin> set (cont s (Worker q))"
      using sf b t ak by (auto simp: worker_eq suffix_Cons)
    have n: "wcur s q = n" using cu t b by auto
    have "wcur s q \<in> set (wdid q MtxLock (trace s))"
      using wdid_once(4)[OF h(3) F _ mid] by simp
    then show ?thesis unfolding n wdid_mem .
  qed
  have n8: "precedes (Did (Worker q) MtxLock n) (Did (Worker q) WgDone n) (trace s')" for n q
    unfolding tr using c8[of q n] locked[of q WgDone n] by (auto simp: precedes_snoc d)
  have n9: "precedes (Did (Worker q) MtxLock n) (Did (Worker q) MtxUnlock n) (trace s')" for n q
    unfolding tr using c9[of q n] locked[of q MtxUnlock n] by (auto simp: precedes_snoc d)
  have n10: "u = Task n \<or> (\<exists>q. u = Worker q)" if "Did u MtxUnlock n \<in> set (trace s')" for u n
  proof (cases "Did u MtxUnlock n \<in> set (trace s1)")
    case True
    then show ?thesis using c10 d(1) by blast
  next
    case False
    then have e: "Did u MtxUnlock n = Did t a ?i" using that by (simp add: tr)
    then have t: "u = t" "a = MtxUnlock" "?i = n" by blast+
    from h(1,2) ak show ?thesis
    proof (cases rule: thread_cases)
      case (host n' m)
      then show ?thesis using body_not(6) t(2) by blast
    next
      case (task n' p)
      then show ?thesis using t by auto
    next
      case (worker q')
      then show ?thesis using t by auto
    qed
  qed
  show ?thesis unfolding inv_cnt_def using n1 n2 n3 n4 n5 n6 n7 n8 n9 n10 by blast
qed

lemma inv_cnt_step:
  assumes "inv_cnt s" "invs2 s" "step A s l = Next s'"
  shows "inv_cnt s'"
proof (cases l)
  case (Invoke m x)
  with assms(3) have e: "trace s' = trace s @ [Invoked (nitems s) m]" "wgCommit s' = wgCommit s"
    by (auto simp: emit_def)
  show ?thesis using assms(1) unfolding inv_cnt_def e by (simp add: precedes_snoc)
next
  case (Attach n)
  with assms(3) have e: "trace s' = trace s" "wgCommit s' = wgCommit s"
    by (auto simp: upd_item_def split: if_splits)
  show ?thesis using assms(1) unfolding inv_cnt_def e .
next
  case (Run t)
  then show ?thesis using inv_cnt_Run assms by blast
qed

lemma inv_cnt_reachable:
  assumes "reachable A a s"
  shows "inv_cnt s"
proof -
  from assms obtain ls where r: "run A (init a) ls = Next s" by (auto simp: reachable_def)
  have "inv_cnt s \<and> invs2 s" using r
  proof (rule run_induct)
    show "inv_cnt (init a) \<and> invs2 (init a)" by (intro conjI inv_cnt_init invs2_init)
  next
    fix s l s'
    assume a: "inv_cnt s \<and> invs2 s" and st: "step A s l = Next s'"
    from a have i: "inv_cnt s" "invs2 s" by simp_all
    show "inv_cnt s' \<and> invs2 s'"
      by (intro conjI inv_cnt_step[OF i st] invs2_step[OF i(2) st])
  qed
  then show ?thesis by simp
qed

lemma done_items:
  assumes "inv_q s" "inv_F s"
  shows "distinct (wdid checkTxQueue WgDone (trace s) @ wdid deliverTxQueue WgDone (trace s))"
proof -
  note a = wdid_once(1,2)[OF assms, of WgDone, simplified]
  have "set (sent checkTxQueue (trace s)) \<inter> set (sent deliverTxQueue (trace s)) = {}"
    using distinct_sent(3)[OF assms(1), of checkTxQueue deliverTxQueue] by simp
  then have "set (wdid checkTxQueue WgDone (trace s)) \<inter>
      set (wdid deliverTxQueue WgDone (trace s)) = {}"
    using a(2)[of checkTxQueue] a(2)[of deliverTxQueue] by blast
  then show ?thesis using a(1) by simp
qed

text \<open>A worker about to decrement finds the counter positive.\<close>

lemma wg_pos:
  assumes "invs2 s" "inv_cnt s" "cont s (Worker q) = WgDone # k"
  shows "0 < wgCommit s"
proof -
  let ?D = "wdid checkTxQueue WgDone (trace s) @ wdid deliverTxQueue WgDone (trace s)"
  let ?n = "wcur s q"
  from assms(1) have h: "inv_host s" "inv_prog s" "inv_q s" "inv_F s"
    by (simp_all add: invs2_def invs1_def)
  from h(1,2) assms(3) obtain q' where q: "Worker q = Worker q'"
    "cont s (Worker q) \<noteq> worker q'" "MtxLock \<notin> set k"
    by (rule who_WgDone) simp
  have mid: "cont s (Worker q) \<noteq> worker q" using q by simp
  have pg: "past_gate s q" using mid q(3) assms(3) by (simp add: past_gate_def)
  have ad: "?n \<in> set (adds (trace s))"
    using past_gate_done(5)[OF assms(1) mid disjI1[OF pg]] .
  have sn: "?n \<in> set (sent q (trace s))" using worker_mid_sent[OF h(3) mid] .
  have new: "?n \<notin> set (wdid q' WgDone (trace s))" for q'
  proof (cases "q' = q")
    case True
    show ?thesis unfolding True
      using wdid_once(3)[OF h(3,4), of WgDone q] mid assms(3) by simp
  next
    case False
    have "set (wdid q' WgDone (trace s)) \<subseteq> set (sent q' (trace s))"
      using wdid_once(2)[OF h(3,4), of WgDone q'] by simp
    then show ?thesis using distinct_sent(3)[OF h(3) False] sn by blast
  qed
  have nD: "?n \<notin> set ?D" using new by simp
  have sub: "set ?D \<subseteq> set (adds (trace s))"
    using assms(2) unfolding inv_cnt_def by simp
  have "card (insert ?n (set ?D)) \<le> card (set (adds (trace s)))"
    using sub ad by (intro card_mono) auto
  moreover have "card (insert ?n (set ?D)) = Suc (card (set ?D))"
    using nD by (intro card_insert_disjoint) auto
  moreover have "card (set ?D) = length ?D"
    using done_items[OF h(3,4)] by (rule distinct_card)
  ultimately have "Suc (length ?D) \<le> card (set (adds (trace s)))" by simp
  also have "\<dots> \<le> length (adds (trace s))" by (rule card_length)
  finally have "length ?D < length (adds (trace s))" by simp
  moreover have "wgCommit s + length ?D = length (adds (trace s))"
    using assms(2) unfolding inv_cnt_def by simp
  ultimately show ?thesis by simp
qed

lemma exec_Panic_wg:
  assumes "exec A t a s0 = Panic NegativeWgCommit"
  shows "a = WgDone"
  using assms
  by (cases a) (auto simp: upd_item_def emit_def split: if_splits list.splits prod.splits)

subsection \<open>Settled items\<close>

lemma exec_item:
  assumes "exec A t a s0 = Next s1" "cur s0 t \<noteq> n \<or> (\<forall>mg. a \<noteq> NewReqRes mg)"
  shows "resp (items s0 n) \<noteq> None \<Longrightarrow> resp (items s1 n) \<noteq> None"
    "is_done (items s0 n) \<Longrightarrow> is_done (items s1 n)"
    "a = ReqResDone \<Longrightarrow> is_done (items s1 (cur s0 t))"
    "a = SetResponse mg \<Longrightarrow> resp (items s1 (cur s0 t)) \<noteq> None"
    "a = When ResponseIsNil j \<Longrightarrow> cont s1 t \<noteq> cont s0 t \<Longrightarrow> resp (items s1 (cur s0 t)) \<noteq> None"
  using assms
  by (cases a; auto simp: upd_item_def emit_def split: if_splits list.splits prod.splits)+

lemma who_NewReqRes:
  assumes "inv_host s" "inv_prog s" "inv_q s" "cont s t = NewReqRes mg # k"
  shows "cur s t \<notin> set (sent q (trace s))"
  using assms(1,2,4)
proof (cases rule: thread_cases)
  case (host n m)
  show ?thesis
  proof
    assume "cur s t \<in> set (sent q (trace s))"
    then have sn: "n \<in> set (sent q (trace s))" using host(1) by simp
    from sent_host(2)[OF assms(3) sn] obtain m' where m': "Invoked n m' \<in> set (trace s)"
      "queue_of m' = Some q" unfolding pipeline_def by blast
    have "acts (Host n) (trace s) @ cont s (Host n) = body m'"
      using assms(1) m'(1) unfolding inv_host_def by blast
    then have sf: "suffix (cont s (Host n)) (body m')" by (metis suffixI)
    have "NewReqRes mg \<notin> set (cont s (Host n))"
      using host_after_Send(3)[OF sf m'(2) sent_host(1)[OF assms(3) sn]] by blast
    then show False using assms(4) host(1) by simp
  qed
next
  case (task n p)
  then show ?thesis using closure_only by blast
next
  case (worker q')
  then show ?thesis using worker_only[OF worker(2)] by (simp add: worker_eq)
qed

lemma worker_SetResponse:
  assumes "suffix (a # k) (worker q)"
  shows "a = ReqResDone \<Longrightarrow> a # k \<noteq> worker q \<and> SetResponse (msg_of q) \<notin> set (a # k)"
    "a = Recv q' \<Longrightarrow> SetResponse (msg_of q) \<in> set k"
    "a = When c j \<Longrightarrow> SetResponse (msg_of q) \<in> set k"
    "(\<forall>q'. a \<noteq> Recv q') \<Longrightarrow> a # k \<noteq> worker q"
    "\<forall>mg. a \<noteq> NewReqRes mg"
  using assms by (auto simp: worker_eq suffix_Cons)

lemma inv_res_init: "inv_res (init a)"
  by (simp add: inv_res_def init_def wdid_def)

lemma inv_res_Run:
  assumes "inv_res s" "invs2 s" "step A s (Run t) = Next s'"
  shows "inv_res s'"
proof -
  from assms(3) obtain a k s1 where ak: "cont s t = a # k"
    and ex: "exec A t a (s\<lparr>cont := (cont s)(t := k)\<rparr>) = Next s1"
    and s': "s' = emit (Did t a (cur s1 t)) s1"
    by (rule step_Run)
  let ?s0 = "s\<lparr>cont := (cont s)(t := k)\<rparr>"
  from assms(2) have h: "inv_host s" "inv_prog s" "inv_q s" "inv_F s"
    by (simp_all add: invs2_def invs1_def)
  have tr: "trace s' = trace s1 @ [Did t a (cur s1 t)]" by (simp add: s' emit_def)
  have it: "items s' = items s1" and co: "cont s' = cont s1" and wc: "wcur s' = wcur s1"
    by (simp_all add: s' emit_def)
  note p = exec_proj[OF ex, simplified]
  note c1 = exec_cont_cases[OF ex]
  have c0: "cur ?s0 t = cur s t" by (cases t) simp_all
  from assms(1) have r1: "\<And>q n. n \<in> set (wdid q ReqResDone (trace s)) \<Longrightarrow>
        is_done (items s n) \<and> resp (items s n) \<noteq> None"
    and r2: "\<And>q. cont s (Worker q) \<noteq> worker q \<Longrightarrow>
        SetResponse (msg_of q) \<notin> set (cont s (Worker q)) \<Longrightarrow> resp (items s (wcur s q)) \<noteq> None"
    unfolding inv_res_def by blast+
  have keep: "cur s t \<noteq> n \<or> (\<forall>mg. a \<noteq> NewReqRes mg)" if "n \<in> set (sent q (trace s))" for n q
    using who_NewReqRes[OF h(1,2,3), of t _ k q] ak that by auto
  have kr: "resp (items s' n) \<noteq> None" if "n \<in> set (sent q (trace s))" "resp (items s n) \<noteq> None"
    for n q
    using exec_item(1)[OF ex, of n] keep[OF that(1)] that(2) by (simp add: it c0)
  have kd: "is_done (items s' n)" if "n \<in> set (sent q (trace s))" "is_done (items s n)" for n q
    using exec_item(2)[OF ex, of n] keep[OF that(1)] that(2) by (simp add: it c0)
  have cu: "cur s1 t = cur s t" if "\<forall>q. a \<noteq> Recv q"
    using exec_cur(2)[OF ex that, of t] by (cases t) simp_all
  have wdone: "set (wdid q ReqResDone (trace s)) \<subseteq> set (sent q (trace s))" for q
    using wdid_once(2)[OF h(3,4), of ReqResDone q] by simp
  have n1: "is_done (items s' n) \<and> resp (items s' n) \<noteq> None"
    if "n \<in> set (wdid q ReqResDone (trace s'))" for q n
  proof (cases "n \<in> set (wdid q ReqResDone (trace s))")
    case True
    then have "n \<in> set (sent q (trace s))" using wdone by blast
    then show ?thesis using kr kd r1[OF True] by blast
  next
    case False
    then have e: "t = Worker q" "a = ReqResDone" "n = cur s1 t"
      using that unfolding tr wdid_snoc p by (auto split: if_splits)
    have n: "n = wcur s q" using cu e by simp
    have sf: "suffix (a # k) (worker q)" using h(2) ak e(1) unfolding inv_prog_def by metis
    have mid: "cont s (Worker q) \<noteq> worker q" "SetResponse (msg_of q) \<notin> set (cont s (Worker q))"
      using worker_SetResponse(1)[OF sf e(2)] ak e(1) by simp_all
    have sn: "n \<in> set (sent q (trace s))" unfolding n using worker_mid_sent[OF h(3) mid(1)] .
    have "resp (items s n) \<noteq> None" unfolding n using r2[OF mid] .
    then have 1: "resp (items s' n) \<noteq> None" using kr[OF sn] by simp
    have "is_done (items s1 (cur ?s0 t))"
      using exec_item(3)[OF ex _ e(2)] e(2) by simp
    then have 2: "is_done (items s' n)" unfolding it c0 n using e(1) by simp
    show ?thesis using 1 2 by simp
  qed
  have n2: "resp (items s' (wcur s' q)) \<noteq> None"
    if m1: "cont s' (Worker q) \<noteq> worker q"
      and m2: "SetResponse (msg_of q) \<notin> set (cont s' (Worker q))" for q
  proof (cases "t = Worker q")
    case True
    have sf: "suffix (a # k) (worker q)" using h(2) ak True unfolding inv_prog_def by metis
    note ws = worker_SetResponse[OF sf]
    have nr: "\<forall>q'. a \<noteq> Recv q'"
    proof (intro allI notI)
      fix q' assume r: "a = Recv q'"
      then have "cont s' (Worker q) = k" using True by (simp add: co c1)
      then show False using ws(2)[OF r] m2 by simp
    qed
    have w: "wcur s' q = wcur s q" "cur s t = wcur s q"
      using exec_cur(1)[OF ex nr] True by (simp_all add: wc)
    have na: "a \<noteq> Again" using m1 True by (auto simp: co c1)
    have mid: "cont s (Worker q) \<noteq> worker q" using ws(4)[OF nr] ak True by simp
    have sn: "wcur s q \<in> set (sent q (trace s))" using worker_mid_sent[OF h(3) mid] .
    consider (wh) c j where "a = When c j" | (sr) mg where "a = SetResponse mg"
      | (other) "\<forall>c j. a \<noteq> When c j" "\<forall>mg. a \<noteq> SetResponse mg"
      by blast
    then show ?thesis
    proof cases
      case (wh c j)
      have "c = ResponseIsNil" using sf wh by (auto simp: worker_eq suffix_Cons)
      moreover have "cont s1 t \<noteq> k" using ws(3)[OF wh] m2 True by (auto simp: co)
      ultimately have "resp (items s1 (cur ?s0 t)) \<noteq> None"
        using exec_item(5)[OF ex, of _ j] wh by simp
      then show ?thesis unfolding it c0 w .
    next
      case (sr mg)
      have "resp (items s1 (cur ?s0 t)) \<noteq> None"
        using exec_item(4)[OF ex _ sr] sr by simp
      then show ?thesis unfolding it c0 w .
    next
      case other
      have "cont s' (Worker q) = k" using other na True by (cases a) (auto simp: co c1)
      then have "SetResponse (msg_of q) \<notin> set (cont s (Worker q))"
        using m2 other(2) ak True by auto
      then have "resp (items s (wcur s q)) \<noteq> None" using r2[OF mid] by simp
      then show ?thesis unfolding w using kr[OF sn] by simp
    qed
  next
    case False
    have cw: "cont s' (Worker q) = cont s (Worker q)"
      using exec_cont_Worker[OF ex False] False by (simp add: co)
    have w: "wcur s' q = wcur s q"
    proof (cases "\<exists>q'. a = Recv q'")
      case True
      then obtain q' where r: "a = Recv q'" by blast
      have t: "t = Worker q'" using who_Recv[OF h(1,2) ak[unfolded r]] by simp
      from ex[unfolded r] obtain i rest where "wcur s1 = (wcur ?s0)(q' := i)"
        by (rule exec_Recv)
      then show ?thesis using t False by (simp add: wc)
    next
      case False
      then show ?thesis using exec_cur(1)[OF ex] by (simp add: wc)
    qed
    have mid: "cont s (Worker q) \<noteq> worker q" using m1 cw by simp
    have sn: "wcur s q \<in> set (sent q (trace s))" using worker_mid_sent[OF h(3) mid] .
    have "resp (items s (wcur s q)) \<noteq> None" using r2[OF mid] m2 cw by simp
    then show ?thesis unfolding w using kr[OF sn] by simp
  qed
  show ?thesis unfolding inv_res_def using n1 n2 by blast
qed

lemma inv_res_step:
  assumes "inv_res s" "invs2 s" "step A s l = Next s'"
  shows "inv_res s'"
proof (cases l)
  case (Invoke m x)
  let ?N = "nitems s"
  from Invoke assms(3) have e: "trace s' = trace s @ [Invoked ?N m]" "wcur s' = wcur s"
    "cont s' (Worker q) = cont s (Worker q)" "items s' = (items s)(?N := new_item x)" for q
    by (auto simp: emit_def)
  from assms(2) have h: "inv_host s" "inv_q s" "inv_F s" by (simp_all add: invs2_def invs1_def)
  have old: "n \<noteq> ?N" if "n \<in> set (sent q (trace s))" for n q
    using sent_host(2)[OF h(2) that] h(1) unfolding pipeline_def inv_host_def
    by (metis less_irrefl)
  have 1: "n \<noteq> ?N" if "n \<in> set (wdid q ReqResDone (trace s))" for q n
    using wdid_once(2)[OF h(2,3), of ReqResDone q] that old by auto
  have 2: "wcur s q \<noteq> ?N" if "cont s (Worker q) \<noteq> worker q" for q
    using worker_mid_sent[OF h(2) that] old by auto
  show ?thesis
    using assms(1) 1 2 unfolding inv_res_def e proj_Invoked by (auto simp: fun_upd_def)
next
  case (Attach n)
  with assms(3) have e: "trace s' = trace s" "wcur s' = wcur s" "cont s' = cont s"
    "resp (items s' i) = resp (items s i)" "is_done (items s' i) = is_done (items s i)" for i
    by (auto simp: upd_item_def split: if_splits)
  show ?thesis using assms(1) unfolding inv_res_def e .
next
  case (Run t)
  then show ?thesis using inv_res_Run assms by blast
qed

lemma inv_res_reachable:
  assumes "reachable A a s"
  shows "inv_res s"
proof -
  from assms obtain ls where r: "run A (init a) ls = Next s" by (auto simp: reachable_def)
  have "inv_res s \<and> invs2 s" using r
  proof (rule run_induct)
    show "inv_res (init a) \<and> invs2 (init a)" by (intro conjI inv_res_init invs2_init)
  next
    fix s l s'
    assume a: "inv_res s \<and> invs2 s" and st: "step A s l = Next s'"
    from a have i: "inv_res s" "invs2 s" by simp_all
    show "inv_res s' \<and> invs2 s'"
      by (intro conjI inv_res_step[OF i st] invs2_step[OF i(2) st])
  qed
  then show ?thesis by simp
qed

lemma exec_trace_prefix: "exec A t a s0 = Next s1 \<Longrightarrow> prefix (trace s0) (trace s1)"
  by (cases a) (auto simp: upd_item_def emit_def split: if_splits list.splits prod.splits)

lemma step_trace_prefix:
  assumes "step A s l = Next s'"
  shows "prefix (trace s) (trace s')"
proof (cases l)
  case (Invoke m x)
  with assms show ?thesis by (auto simp: emit_def)
next
  case (Attach n)
  with assms show ?thesis by (auto simp: upd_item_def split: if_splits)
next
  case (Run t)
  from assms[unfolded Run] obtain a k s1 where
    ex: "exec A t a (s\<lparr>cont := (cont s)(t := k)\<rparr>) = Next s1"
    and s': "s' = emit (Did t a (cur s1 t)) s1"
    by (rule step_Run)
  have "prefix (trace s) (trace s1)" using exec_trace_prefix[OF ex] by simp
  then show ?thesis unfolding s' emit_def by (auto simp: prefix_def)
qed

lemma run_trace_prefix:
  assumes "run A s0 ls = Next s"
  shows "prefix (trace s0) (trace s)"
  using assms
proof (rule run_induct)
  show "prefix (trace s0) (trace s0)" by simp
next
  fix s l s'
  assume "prefix (trace s0) (trace s)" "step A s l = Next s'"
  then show "prefix (trace s0) (trace s')"
    using step_trace_prefix prefix_order.order_trans by blast
qed

lemma reachable_run:
  assumes "reachable A a s0" "run A s0 ls = Next s"
  shows "reachable A a s"
proof -
  from assms(1) obtain ls0 where "run A (init a) ls0 = Next s0" by (auto simp: reachable_def)
  then have "run A (init a) (ls0 @ ls) = Next s" using assms(2) by (simp add: run_append)
  then show ?thesis unfolding reachable_def by blast
qed

lemma run_after:
  assumes "completes A a (ls0 @ ls)"
  shows "run A (after A a ls0) ls = Next (after A a (ls0 @ ls))"
  using assms unfolding completes_def after_def run_append
  by (cases "run A (init a) ls0") (auto split: outcome.splits)

text \<open>With the counter at zero, every item it was incremented for has been decremented
  for by a worker.\<close>

lemma zero_all_done:
  assumes "invs2 s" "inv_cnt s" "wgCommit s = 0" "n \<in> set (adds (trace s))"
  shows "\<exists>q. n \<in> set (wdid q WgDone (trace s))"
proof -
  let ?D = "wdid checkTxQueue WgDone (trace s) @ wdid deliverTxQueue WgDone (trace s)"
  from assms(1) have h: "inv_q s" "inv_F s" by (simp_all add: invs2_def invs1_def)
  have sub: "set ?D \<subseteq> set (adds (trace s))"
    using assms(2) unfolding inv_cnt_def by simp
  have "length ?D = length (adds (trace s))"
    using assms(2,3) unfolding inv_cnt_def by simp
  moreover have "card (set ?D) = length ?D" using done_items[OF h] by (rule distinct_card)
  moreover have "card (set (adds (trace s))) \<le> length (adds (trace s))" by (rule card_length)
  ultimately have "card (set (adds (trace s))) \<le> card (set ?D)" by simp
  then have "set ?D = set (adds (trace s))" using sub by (intro card_seteq) auto
  then have "n \<in> set ?D" using assms(4) by simp
  then show ?thesis by auto
qed

lemma worker_outside:
  assumes "suffix w (worker q)" "w \<noteq> []" "\<not> holdsW w"
  shows "ReqResDone \<in> set w \<longleftrightarrow> WgDone \<in> set w" "ReqCallback \<in> set w \<longleftrightarrow> WgDone \<in> set w"
    "GlobalCallback \<in> set w \<longleftrightarrow> WgDone \<in> set w"
  using assms by (cases w; auto simp: worker_eq suffix_Cons holdsW_def)+

lemma worker_settling:
  assumes "suffix (x # k) (worker q)" "settling x"
  shows "holdsW (x # k)"
  using assms by (auto simp: worker_eq suffix_Cons holdsW_def)

text \<open>What a worker has decremented the counter for is settled as soon as the worker
  does not hold the lock.\<close>

lemma settled_outside:
  assumes "invs2 s" "inv_res s" "n \<in> set (wdid q WgDone (trace s))" "\<not> holdsW (cont s (Worker q))"
  shows "n \<in> set (wdid q ReqCallback (trace s))" "n \<in> set (wdid q GlobalCallback (trace s))"
    "n \<in> set (gcbs q (trace s))" "is_done (items s n)" "resp (items s n) \<noteq> None"
    "pipeline s n q"
proof -
  from assms(1) have h: "inv_prog s" "inv_q s" "inv_F s" "inv_E s"
    by (simp_all add: invs2_def invs1_def)
  have sf: "suffix (cont s (Worker q)) (worker q)" "cont s (Worker q) \<noteq> []"
    using h(1) unfolding inv_prog_def by blast+
  note wo = worker_outside[OF sf assms(4)]
  have e: "recvd q (trace s) = wdid q x (trace s) @ pend s q x" if "once x" for x
    using h(3) by (rule inv_F_once) (use that in simp_all)
  have pe: "pend s q x = pend s q WgDone" if "x = ReqResDone \<or> x = ReqCallback \<or> x = GlobalCallback"
    for x using wo that unfolding pend_def by auto
  have eq: "wdid q x (trace s) = wdid q WgDone (trace s)"
    if x: "x = ReqResDone \<or> x = ReqCallback \<or> x = GlobalCallback" for x
  proof -
    have "once x" using x by auto
    from e[OF this] e[of WgDone] show ?thesis unfolding pe[OF x] by simp
  qed
  show "n \<in> set (wdid q ReqCallback (trace s))" using assms(3) eq[of ReqCallback] by simp
  show g: "n \<in> set (wdid q GlobalCallback (trace s))" using assms(3) eq[of GlobalCallback] by simp
  show "n \<in> set (gcbs q (trace s))" using g h(4) unfolding inv_E_def by simp
  have d: "n \<in> set (wdid q ReqResDone (trace s))" using assms(3) eq[of ReqResDone] by simp
  then show "is_done (items s n)" "resp (items s n) \<noteq> None"
    using assms(2) unfolding inv_res_def by blast+
  have "n \<in> set (sent q (trace s))"
    using wdid_once(2)[OF h(2,3), of WgDone q] assms(3) by auto
  then show "pipeline s n q" using sent_host(2)[OF h(2)] by blast
qed

subsection \<open>The three mutexes\<close>

lemma holdsM_simps [simp]:
  "holdsM m [] = False"
  "holdsM m (a # k) = (if touches m a then a = Unlock m else holdsM m k)"
  by (simp_all add: holdsM_def)

lemma wfM_body: "wfM (body m)"
  by (cases m) simp_all

lemma body_fresh: "\<not> holdsM m' (body m)"
  by (cases m; cases m') simp_all

lemma wfM_suffix: "wfM k \<Longrightarrow> suffix k' k \<Longrightarrow> wfM k'"
proof (induction k)
  case Nil
  then show ?case by simp
next
  case (Cons a k)
  then show ?case by (auto simp: suffix_Cons)
qed

lemma body_mx:
  assumes "suffix (a # k) (body m)"
  shows "a = Lock m' \<Longrightarrow> holdsM m' k" "a = Unlock m' \<Longrightarrow> \<not> holdsM m' k"
  using wfM_suffix[OF wfM_body assms] by auto

lemma exec_mutexes:
  assumes "exec A t a s0 = Next s1"
  shows "a = Lock m \<Longrightarrow> \<not> mutexes s0 m \<and> mutexes s1 = (mutexes s0)(m := True)"
    "a = Unlock m \<Longrightarrow> mutexes s0 m \<and> mutexes s1 = (mutexes s0)(m := False)"
    "(\<forall>m. a \<noteq> Lock m) \<Longrightarrow> (\<forall>m. a \<noteq> Unlock m) \<Longrightarrow> mutexes s1 = mutexes s0"
  using assms
  by (cases a; auto simp: upd_item_def emit_def split: if_splits list.splits prod.splits)+

lemma inv_mx_init: "inv_mx (init a)"
  by (simp add: inv_mx_def init_def)

lemma inv_mx_Run:
  assumes "inv_mx s" "inv_host s" "inv_prog s" "step A s (Run t) = Next s'"
  shows "inv_mx s'"
proof -
  from assms(4) obtain a k s1 where ak: "cont s t = a # k"
    and ex: "exec A t a (s\<lparr>cont := (cont s)(t := k)\<rparr>) = Next s1"
    and s': "s' = emit (Did t a (cur s1 t)) s1"
    by (rule step_Run)
  have co: "cont s' = cont s1" and mu: "mutexes s' = mutexes s1" by (simp_all add: s' emit_def)
  note em = exec_mutexes[OF ex, simplified]
  from assms(1) have m1: "\<And>m. mutexes s m \<longleftrightarrow> (\<exists>j. holdsM m (cont s (Host j)))"
    and m2: "\<And>m i j. holdsM m (cont s (Host i)) \<Longrightarrow> holdsM m (cont s (Host j)) \<Longrightarrow> i = j"
    unfolding inv_mx_def by blast+
  from assms(2,3) ak show ?thesis
  proof (cases rule: thread_cases)
    case (host n m)
    note bn = body_not[OF host(4)]
    note bm = body_mx[OF host(4)]
    have cH: "cont s' (Host j) = (if j = n then k else cont s (Host j))" for j
    proof (cases "j = n")
      case True
      have "cont s1 t = k" using exec_cont_self[OF ex] bn(7,8) host(1) by simp
      then show ?thesis using True host(1) by (simp add: co)
    next
      case False
      then show ?thesis using exec_cont_Host[OF ex, of j] host(1) by (simp add: co)
    qed
    have hn: "holdsM m' (cont s (Host n)) = (if touches m' a then a = Unlock m' else holdsM m' k)"
      for m' using ak host(1) by simp
    consider (lock) m0 where "a = Lock m0" | (unlock) m0 where "a = Unlock m0"
      | (other) "\<forall>m. a \<noteq> Lock m" "\<forall>m. a \<noteq> Unlock m"
      by blast
    then show ?thesis
    proof cases
      case (lock m0)
      have free: "\<not> holdsM m0 (cont s (Host j))" for j using em(1)[OF lock] m1[of m0] by blast
      have mm: "mutexes s' = (mutexes s)(m0 := True)" using em(1)[OF lock] by (simp add: mu)
      have hk: "holdsM m0 k" using bm(1)[OF lock] .
      have same: "holdsM m' (cont s' (Host j)) = holdsM m' (cont s (Host j))" if "m' \<noteq> m0" for m' j
        unfolding cH using hn[of m'] that lock by auto
      have at: "holdsM m0 (cont s' (Host j)) \<longleftrightarrow> j = n" for j
        unfolding cH using hk free[of j] by auto
      have 1: "mutexes s' m' \<longleftrightarrow> (\<exists>j. holdsM m' (cont s' (Host j)))" for m'
      proof (cases "m' = m0")
        case True
        then show ?thesis using at by (auto simp: mm)
      next
        case False
        then show ?thesis using same[OF False] m1[of m'] by (simp add: mm)
      qed
      have 2: "i = j" if "holdsM m' (cont s' (Host i))" "holdsM m' (cont s' (Host j))" for m' i j
      proof (cases "m' = m0")
        case True
        then show ?thesis using that at by simp
      next
        case False
        then show ?thesis using that same[OF False] m2 by simp
      qed
      show ?thesis unfolding inv_mx_def using 1 2 by blast
    next
      case (unlock m0)
      have mm: "mutexes s' = (mutexes s)(m0 := False)" using em(2)[OF unlock] by (simp add: mu)
      have held: "holdsM m0 (cont s (Host n))" using hn[of m0] unlock by simp
      have nk: "\<not> holdsM m0 k" using bm(2)[OF unlock] .
      have same: "holdsM m' (cont s' (Host j)) = holdsM m' (cont s (Host j))" if "m' \<noteq> m0" for m' j
        unfolding cH using hn[of m'] that unlock by auto
      have at: "\<not> holdsM m0 (cont s' (Host j))" for j
        unfolding cH using nk m2[OF held, of j] by auto
      have 1: "mutexes s' m' \<longleftrightarrow> (\<exists>j. holdsM m' (cont s' (Host j)))" for m'
      proof (cases "m' = m0")
        case True
        then show ?thesis using at by (auto simp: mm)
      next
        case False
        then show ?thesis using same[OF False] m1[of m'] by (simp add: mm)
      qed
      have 2: "i = j" if "holdsM m' (cont s' (Host i))" "holdsM m' (cont s' (Host j))" for m' i j
      proof (cases "m' = m0")
        case True
        then show ?thesis using that at by simp
      next
        case False
        then show ?thesis using that same[OF False] m2 by simp
      qed
      show ?thesis unfolding inv_mx_def using 1 2 by blast
    next
      case other
      have mm: "mutexes s' = mutexes s" using em(3)[OF other] by (simp add: mu)
      have nt: "\<not> touches m' a" for m' using other by (cases a) auto
      have same: "holdsM m' (cont s' (Host j)) = holdsM m' (cont s (Host j))" for m' j
        unfolding cH using hn[of m'] nt by auto
      show ?thesis unfolding inv_mx_def mm same using assms(1)[unfolded inv_mx_def] .
    qed
  next
    case (task n p)
    have o: "\<forall>m. a \<noteq> Lock m" "\<forall>m. a \<noteq> Unlock m" using closure_only[OF task(2)] by auto
    have mm: "mutexes s' = mutexes s" using em(3)[OF o] by (simp add: mu)
    have same: "cont s' (Host j) = cont s (Host j)" for j
      using exec_cont_Host[OF ex, of j] task(1) by (simp add: co)
    show ?thesis unfolding inv_mx_def mm same using assms(1)[unfolded inv_mx_def] .
  next
    case (worker q)
    have o: "\<forall>m. a \<noteq> Lock m" "\<forall>m. a \<noteq> Unlock m"
      using worker_only[OF worker(2)] by (auto simp: worker_eq)
    have mm: "mutexes s' = mutexes s" using em(3)[OF o] by (simp add: mu)
    have same: "cont s' (Host j) = cont s (Host j)" for j
      using exec_cont_Host[OF ex, of j] worker(1) by (simp add: co)
    show ?thesis unfolding inv_mx_def mm same using assms(1)[unfolded inv_mx_def] .
  qed
qed

lemma inv_mx_step:
  assumes "inv_mx s" "inv_host s" "inv_prog s" "step A s l = Next s'"
  shows "inv_mx s'"
proof (cases l)
  case (Invoke m x)
  let ?N = "nitems s"
  from Invoke assms(4) have e: "mutexes s' = mutexes s"
    "cont s' (Host j) = (if j = ?N then body m else cont s (Host j))" for j
    by (auto simp: emit_def)
  have "cont s (Host ?N) = []" using assms(2) unfolding inv_host_def by simp
  then have same: "holdsM m' (cont s' (Host j)) = holdsM m' (cont s (Host j))" for m' j
    unfolding e using body_fresh[of m' m] by simp
  show ?thesis unfolding inv_mx_def e(1) same using assms(1)[unfolded inv_mx_def] .
next
  case (Attach n)
  with assms(4) have e: "mutexes s' = mutexes s" "cont s' = cont s"
    by (auto simp: upd_item_def split: if_splits)
  show ?thesis unfolding inv_mx_def e using assms(1)[unfolded inv_mx_def] .
next
  case (Run t)
  then show ?thesis using inv_mx_Run assms by blast
qed

lemma inv_mx_reachable:
  assumes "reachable A a s"
  shows "inv_mx s"
proof -
  from assms obtain ls where r: "run A (init a) ls = Next s" by (auto simp: reachable_def)
  have "inv_mx s \<and> invs2 s" using r
  proof (rule run_induct)
    show "inv_mx (init a) \<and> invs2 (init a)" by (intro conjI inv_mx_init invs2_init)
  next
    fix s l s'
    assume a: "inv_mx s \<and> invs2 s" and st: "step A s l = Next s'"
    from a have i: "inv_mx s" "invs2 s" "inv_host s" "inv_prog s"
      by (simp_all add: invs2_def invs1_def)
    show "inv_mx s' \<and> invs2 s'"
      by (intro conjI inv_mx_step[OF i(1,3,4) st] invs2_step[OF i(2) st])
  qed
  then show ?thesis by simp
qed

lemma adds_mem: "n \<in> set (adds tr) \<longleftrightarrow> (\<exists>t. Did t WgAdd n \<in> set tr)"
proof (induction tr rule: rev_induct)
  case Nil
  then show ?case by (simp add: adds_def)
next
  case (snoc e tr)
  show ?case
  proof (cases e)
    case (Did t a i)
    then show ?thesis using snoc by auto
  qed (use snoc in \<open>auto simp: adds_def proj_snoc\<close>)
qed

lemma step_after:
  assumes "completes A a (ls @ [l])"
  shows "step A (after A a ls) l = Next (after A a (ls @ [l]))"
  using run_after[OF assms] by (simp split: outcome.splits)

lemma CheckTxAsync_positions:
  assumes "suffix (b # k) (body CheckTxAsync)"
  shows "b = Send checkTxQueue \<or> b = WgAdd \<Longrightarrow>
      holdsM commitLock (b # k) \<and> holdsM checkTxLowLock (b # k) \<and> \<not> holdsM checkTxMidLock (b # k)"
    "b = Schedule checkTxPool \<Longrightarrow> \<forall>m. \<not> holdsM m (b # k)"
    "b = Return \<Longrightarrow> k = []"
    "b = WgAdd \<or> b = Schedule checkTxPool \<Longrightarrow> Send checkTxQueue \<notin> set (b # k)"
    "b = Schedule checkTxPool \<Longrightarrow> WgAdd \<notin> set (b # k)"
  using assms by (auto simp: suffix_Cons)

section \<open>The claims\<close>

text \<open>
  C1. Every commit-class operation is claimed to wait for the in-flight counter to be
  zero before it calls the application. \<^verbatim>\<open>CommitSync\<close> has no \<^verbatim>\<open>wgCommit.Wait()\<close>: in
  the run below a \<^verbatim>\<open>CheckTxAsync\<close> has been admitted and has returned (its item is in
  the queue, the counter is 1, its response slot is empty and the worker has done
  nothing), and \<^verbatim>\<open>CommitSync\<close>, invoked after that, has entered the application's
  \<^verbatim>\<open>Commit\<close>.
\<close>

theorem CommitSync_calls_Commit_with_work_in_flight:
  "completes demoApp 0 sched_CommitSync \<and>
   acts (Host 1) (trace (after demoApp 0 sched_CommitSync)) = body CheckTxAsync \<and>
   acts (Host 2) (trace (after demoApp 0 sched_CommitSync)) =
     [Lock checkTxMidLock, Lock commitLock, Unlock checkTxMidLock, RWLock, AppCall Commit] \<and>
   wgCommit (after demoApp 0 sched_CommitSync) = 1 \<and>
   chan (after demoApp 0 sched_CommitSync) checkTxQueue = [1] \<and>
   resp (items (after demoApp 0 sched_CommitSync) 1) = None \<and>
   acts (Worker checkTxQueue) (trace (after demoApp 0 sched_CommitSync)) = []"
  by code_simp

text \<open>
  C7. Over an application that lacks \<^verbatim>\<open>PreCheckTx\<close>, \<^verbatim>\<open>PreDeliverTx\<close> and
  \<^verbatim>\<open>ReCheckTx\<close>, \<^verbatim>\<open>NewAsyncLocalClient\<close> returns no client, as claimed; but
  \<^verbatim>\<open>NewABCIClient\<close> hands that absent client to its caller with a nil error.
\<close>

theorem NewABCIClient_reports_no_error:
  "\<not> implements plainApp ApplicationCC \<and>
   NewAsyncLocalClient plainApp l = None \<and>
   NewABCIClient \<lparr>app = plainApp, creator_locks = l\<rparr> = (None, None)"
  by (simp add: NewABCIClient_def NewAsyncLocalClient_def implements_def plainApp_def
      ApplicationCC_def)

text \<open>
  C5. In every state of every run, a goroutine that is inside a write-mode operation
  (a call of \<^verbatim>\<open>CheckTx\<close>, \<^verbatim>\<open>DeliverTx\<close>, \<^verbatim>\<open>ReCheckTx\<close>, \<^verbatim>\<open>SetOption\<close>,
  \<^verbatim>\<open>InitChain\<close>, \<^verbatim>\<open>BeginBlock\<close>, \<^verbatim>\<open>EndBlock\<close> or \<^verbatim>\<open>Commit\<close>, or the assignment
  of the global callback) excludes every other goroutine from being inside a write-mode
  or a read-mode operation; and two read-mode calls can be inside the application at
  the same time.
\<close>

theorem write_mode_exclusive:
  "(reachable A a s \<and> t \<noteq> u \<and> inside (cont s t) = Exclusive \<longrightarrow>
      inside (cont s u) = Unlocked) \<and>
   (\<exists>s' t' u'. reachable A a s' \<and> t' \<noteq> u' \<and>
      inside (cont s' t') = Shared \<and> inside (cont s' u') = Shared)"
proof (intro conjI impI)
  assume h: "reachable A a s \<and> t \<noteq> u \<and> inside (cont s t) = Exclusive"
  then have r: "reachable A a s" by simp
  have rw: "inv_rw s" using r by (rule inv_rw_reachable)
  have wfs: "inv_wf s" using r by (rule inv_wf_reachable)
  have ht: "holdsW (cont s t)" using h wfs inside_holds(1) by (simp add: inv_wf_def)
  have nW: "\<not> holdsW (cont s u)" using ht h rw by (auto simp: inv_rw_def)
  have "rw_writer s" using ht rw by (auto simp: inv_rw_def)
  then have "card {v. holdsR (cont s v)} = 0" "finite {v. holdsR (cont s v)}"
    using rw by (auto simp: inv_rw_def)
  then have nR: "\<not> holdsR (cont s u)" by auto
  show "inside (cont s u) = Unlocked"
    using nW nR wfs inside_holds[of "cont s u"] by (cases "inside (cont s u)") (auto simp: inv_wf_def)
next
  have c: "completes A a sched_two_readers"
    by (simp add: completes_def sched_two_readers_def init_def emit_def)
  have "inside (cont (after A a sched_two_readers) (Host 0)) = Shared"
    "inside (cont (after A a sched_two_readers) (Host 1)) = Shared"
    by (simp_all add: after_def sched_two_readers_def init_def emit_def)
  then show "\<exists>s' t' u'. reachable A a s' \<and> t' \<noteq> u' \<and>
      inside (cont s' t') = Shared \<and> inside (cont s' u') = Shared"
    using completes_reachable[OF c] by (intro exI[of _ "after A a sched_two_readers"] exI[of _ "Host 0"] exI[of _ "Host 1"]) simp
qed

theorem write_mode_exclusive_witness:
  "reachable demoApp 0 (after demoApp 0 sched_writer_reader) \<and> Host 0 \<noteq> Host 1 \<and>
   inside (cont (after demoApp 0 sched_writer_reader) (Host 0)) = Exclusive \<and>
   inside (cont (after demoApp 0 sched_writer_reader) (Host 1)) = Unlocked \<and>
   cont (after demoApp 0 sched_writer_reader) (Host 1) = body QuerySync \<and>
   blocked (step demoApp (after demoApp 0 sched_writer_reader) (Run (Host 1)))"
proof -
  have c: "completes demoApp 0 sched_writer_reader" by code_simp
  have r: "reachable demoApp 0 (after demoApp 0 sched_writer_reader)"
    using c by (rule completes_reachable)
  have i: "inside (cont (after demoApp 0 sched_writer_reader) (Host 0)) = Exclusive"
    by code_simp
  have b: "cont (after demoApp 0 sched_writer_reader) (Host 1) = body QuerySync"
    "blocked (step demoApp (after demoApp 0 sched_writer_reader) (Run (Host 1)))"
    by code_simp+
  show ?thesis
    using write_mode_exclusive[of demoApp 0 "after demoApp 0 sched_writer_reader" "Host 0" "Host 1"]
      r i b by simp
qed

text \<open>
  C2. In every run and for each pipeline, with the order in which the submissions were
  enqueued by their admission as the submission order: no submission is enqueued twice;
  the real application calls of the ordered worker happen in submission order (for the
  submissions that get one); the per-request callbacks fire in submission order (for
  the submissions that have one attached); and the global callback has fired, in
  submission order and leaving none out, for an initial segment of the submissions.
  All interleavings of the pre-validation tasks are runs of the model.
\<close>

theorem FIFO_preserved:
  assumes "reachable A a s"
  shows "distinct (sent q (trace s)) \<and>
    subseq (wdid q (AppCall (real_call q)) (trace s)) (sent q (trace s)) \<and>
    subseq (rcbs q (trace s)) (sent q (trace s)) \<and>
    prefix (gcbs q (trace s)) (sent q (trace s))"
proof -
  from assms have i: "invs1 s" by (rule invs1_reachable)
  then have q: "inv_q s" and F: "inv_F s" and E: "inv_E s" by (simp_all add: invs1_def)
  have d: "distinct (sent q (trace s))"
    using q unfolding inv_q_def by (cases q) auto
  have rs: "prefix (recvd q (trace s)) (sent q (trace s))"
    using q unfolding inv_q_def by (metis prefixI)
  have sub: "subseq (wdid q x (trace s)) (recvd q (trace s))" if "x \<in> set (worker q)" for x
    using F that by (rule inv_F_sub)
  have 1: "subseq (wdid q (AppCall (real_call q)) (trace s)) (sent q (trace s))"
  proof -
    have "subseq (wdid q (AppCall (real_call q)) (trace s)) (recvd q (trace s))"
      by (rule sub) (simp add: worker_eq)
    then show ?thesis using rs
      by (meson subseq_order.order_trans prefix_imp_subseq)
  qed
  have 2: "subseq (rcbs q (trace s)) (sent q (trace s))"
  proof -
    have "subseq (rcbs q (trace s)) (wdid q ReqCallback (trace s))"
      using E unfolding inv_E_def by blast
    moreover have "subseq (wdid q ReqCallback (trace s)) (recvd q (trace s))"
      by (rule sub) (simp add: worker_eq)
    ultimately show ?thesis using rs
      by (meson subseq_order.order_trans prefix_imp_subseq)
  qed
  have 3: "prefix (gcbs q (trace s)) (sent q (trace s))"
  proof -
    have "recvd q (trace s) = wdid q GlobalCallback (trace s) @ pend s q GlobalCallback"
      using F by (rule inv_F_once) simp_all
    then have "prefix (wdid q GlobalCallback (trace s)) (recvd q (trace s))"
      by (metis prefixI)
    moreover have "gcbs q (trace s) = wdid q GlobalCallback (trace s)"
      using E unfolding inv_E_def by blast
    ultimately show ?thesis using rs by (metis prefix_order.order_trans)
  qed
  show ?thesis using d 1 2 3 by blast
qed

theorem FIFO_preserved_witness:
  "reachable demoApp 0 (after demoApp 0 sched_reversed) \<and>
   sent checkTxQueue (trace (after demoApp 0 sched_reversed)) = [1, 2] \<and>
   acts (Task 2) (trace (after demoApp 0 sched_reversed)) @
     acts (Task 1) (trace (after demoApp 0 sched_reversed)) =
     map (\<lambda>e. case e of Did t a n \<Rightarrow> a)
       (filter (\<lambda>e. case e of Did (Task n) a i \<Rightarrow> True | _ \<Rightarrow> False)
         (trace (after demoApp 0 sched_reversed))) \<and>
   wdid checkTxQueue (AppCall CheckTx) (trace (after demoApp 0 sched_reversed)) = [1] \<and>
   rcbs checkTxQueue (trace (after demoApp 0 sched_reversed)) = [1] \<and>
   gcbs checkTxQueue (trace (after demoApp 0 sched_reversed)) = [1, 2] \<and>
   distinct (sent checkTxQueue (trace (after demoApp 0 sched_reversed))) \<and>
   subseq (wdid checkTxQueue (AppCall (real_call checkTxQueue))
     (trace (after demoApp 0 sched_reversed))) (sent checkTxQueue (trace (after demoApp 0 sched_reversed))) \<and>
   prefix (gcbs checkTxQueue (trace (after demoApp 0 sched_reversed)))
     (sent checkTxQueue (trace (after demoApp 0 sched_reversed)))"
proof -
  have c: "completes demoApp 0 sched_reversed" by code_simp
  have r: "reachable demoApp 0 (after demoApp 0 sched_reversed)"
    using c by (rule completes_reachable)
  have e: "sent checkTxQueue (trace (after demoApp 0 sched_reversed)) = [1, 2]"
    "acts (Task 2) (trace (after demoApp 0 sched_reversed)) @
     acts (Task 1) (trace (after demoApp 0 sched_reversed)) =
     map (\<lambda>e. case e of Did t a n \<Rightarrow> a)
       (filter (\<lambda>e. case e of Did (Task n) a i \<Rightarrow> True | _ \<Rightarrow> False)
         (trace (after demoApp 0 sched_reversed)))"
    "wdid checkTxQueue (AppCall CheckTx) (trace (after demoApp 0 sched_reversed)) = [1]"
    "rcbs checkTxQueue (trace (after demoApp 0 sched_reversed)) = [1]"
    "gcbs checkTxQueue (trace (after demoApp 0 sched_reversed)) = [1, 2]"
    by code_simp+
  show ?thesis
    using FIFO_preserved[OF r, of checkTxQueue] r e by simp
qed

text \<open>
  C8. In every run, an invocation of \<^verbatim>\<open>DeliverTxAsync\<close> executes, in this order, the
  allocation of its item with the gate held, the enqueue on the apply-class queue, the
  increment of the in-flight counter, the scheduling of the pre-apply task and the
  return, and no action on a mutex or on the exclusivity lock. Each of its steps leaves
  the three mutexes, the exclusivity lock, the application, the global callback, the
  validate-class queue, the workers, the frames of the other invocations and the
  continuations of all other goroutines but its own closure as they were; the
  apply-class queue changes only by its item appended and the counter only by one added.
\<close>

theorem DeliverTxAsync_frame:
  assumes "reachable A a s" "Invoked n DeliverTxAsync \<in> set (trace s)"
  shows "acts (Host n) (trace s) @ cont s (Host n) =
      [NewReqRes MsgDeliverTx, NewMtx, MtxLock, Send deliverTxQueue, WgAdd,
       Schedule deliverTxPool, Return] \<and>
    (step A s (Run (Host n)) = Next s' \<longrightarrow>
       mutexes s' = mutexes s \<and> rw_writer s' = rw_writer s \<and> rw_readers s' = rw_readers s \<and>
       appstate s' = appstate s \<and> Callback_set s' = Callback_set s \<and>
       chan s' checkTxQueue = chan s checkTxQueue \<and>
       wcur s' = wcur s \<and> res s' = res s \<and> nitems s' = nitems s \<and>
       items s' = (items s)(n := items s' n) \<and>
       cont s' = (cont s)(Host n := cont s' (Host n), Task n := cont s' (Task n)) \<and>
       (chan s' deliverTxQueue = chan s deliverTxQueue \<or>
        chan s' deliverTxQueue = chan s deliverTxQueue @ [n]) \<and>
       (wgCommit s' = wgCommit s \<or> wgCommit s' = Suc (wgCommit s)))"
proof (intro conjI impI)
  have h: "inv_host s" using assms(1) by (rule inv_host_reachable)
  show b: "acts (Host n) (trace s) @ cont s (Host n) =
      [NewReqRes MsgDeliverTx, NewMtx, MtxLock, Send deliverTxQueue, WgAdd,
       Schedule deliverTxPool, Return]"
    using h assms(2) by (simp add: inv_host_def)
  assume st: "step A s (Run (Host n)) = Next s'"
  then obtain a' k s1 where ak: "cont s (Host n) = a' # k"
    and ex: "exec A (Host n) a' (s\<lparr>cont := (cont s)(Host n := k)\<rparr>) = Next s1"
    and s': "s' = emit (Did (Host n) a' (cur s1 (Host n))) s1"
    by (rule step_Run)
  have "suffix (a' # k) (body DeliverTxAsync)" using b ak by (metis body.simps(4) suffixI)
  then have a': "a' \<in> {NewReqRes MsgDeliverTx, NewMtx, MtxLock, Send deliverTxQueue, WgAdd,
       Schedule deliverTxPool, Return}"
    by (auto simp: suffix_Cons)
  have all: "mutexes s' = mutexes s \<and> rw_writer s' = rw_writer s \<and> rw_readers s' = rw_readers s \<and>
       appstate s' = appstate s \<and> Callback_set s' = Callback_set s \<and>
       chan s' checkTxQueue = chan s checkTxQueue \<and>
       wcur s' = wcur s \<and> res s' = res s \<and> nitems s' = nitems s \<and>
       items s' = (items s)(n := items s' n) \<and>
       cont s' = (cont s)(Host n := cont s' (Host n), Task n := cont s' (Task n)) \<and>
       (chan s' deliverTxQueue = chan s deliverTxQueue \<or>
        chan s' deliverTxQueue = chan s deliverTxQueue @ [n]) \<and>
       (wgCommit s' = wgCommit s \<or> wgCommit s' = Suc (wgCommit s))"
    using a' ex unfolding s'
    by (auto simp: emit_def upd_item_def fun_eq_iff split: if_splits)
  then show "mutexes s' = mutexes s" "rw_writer s' = rw_writer s" "rw_readers s' = rw_readers s"
    "appstate s' = appstate s" "Callback_set s' = Callback_set s"
    "chan s' checkTxQueue = chan s checkTxQueue"
    "wcur s' = wcur s" "res s' = res s" "nitems s' = nitems s"
    "items s' = (items s)(n := items s' n)"
    "cont s' = (cont s)(Host n := cont s' (Host n), Task n := cont s' (Task n))"
    "chan s' deliverTxQueue = chan s deliverTxQueue \<or>
        chan s' deliverTxQueue = chan s deliverTxQueue @ [n]"
    "wgCommit s' = wgCommit s \<or> wgCommit s' = Suc (wgCommit s)"
    by blast+
qed

theorem DeliverTxAsync_frame_witness:
  "reachable demoApp 0 (after demoApp 0 sched_deliver_under_locks) \<and>
   Invoked 2 DeliverTxAsync \<in> set (trace (after demoApp 0 sched_deliver_under_locks)) \<and>
   rw_writer (after demoApp 0 sched_deliver_under_locks) \<and>
   mutexes (after demoApp 0 sched_deliver_under_locks) commitLock \<and>
   mutexes (after demoApp 0 sched_deliver_under_locks) checkTxLowLock \<and>
   mutexes (after demoApp 0 sched_deliver_under_locks) checkTxMidLock \<and>
   acts (Host 2) (trace (after demoApp 0 sched_deliver_under_locks)) =
     [NewReqRes MsgDeliverTx, NewMtx, MtxLock] \<and>
   cont (after demoApp 0 sched_deliver_under_locks) (Host 2) =
     [Send deliverTxQueue, WgAdd, Schedule deliverTxPool, Return] \<and>
   completes demoApp 0 (sched_deliver_under_locks @ [Run (Host 2)]) \<and>
   step demoApp (after demoApp 0 sched_deliver_under_locks) (Run (Host 2)) =
     Next (after demoApp 0 (sched_deliver_under_locks @ [Run (Host 2)])) \<and>
   mutexes (after demoApp 0 (sched_deliver_under_locks @ [Run (Host 2)])) =
     mutexes (after demoApp 0 sched_deliver_under_locks) \<and>
   chan (after demoApp 0 (sched_deliver_under_locks @ [Run (Host 2)])) deliverTxQueue = [2]"
proof -
  let ?s = "after demoApp 0 sched_deliver_under_locks"
  let ?s' = "after demoApp 0 (sched_deliver_under_locks @ [Run (Host 2)])"
  have c: "completes demoApp 0 sched_deliver_under_locks" by code_simp
  have r: "reachable demoApp 0 ?s" using c by (rule completes_reachable)
  have i: "Invoked 2 DeliverTxAsync \<in> set (trace ?s)" by code_simp
  have e: "rw_writer ?s" "mutexes ?s commitLock" "mutexes ?s checkTxLowLock"
    "mutexes ?s checkTxMidLock"
    "acts (Host 2) (trace ?s) = [NewReqRes MsgDeliverTx, NewMtx, MtxLock]"
    "chan ?s' deliverTxQueue = [2]"
    by code_simp+
  have c': "completes demoApp 0 (sched_deliver_under_locks @ [Run (Host 2)])" by code_simp
  have st: "step demoApp ?s (Run (Host 2)) = Next ?s'"
    using c c' unfolding completes_def after_def
    by (auto simp: run_append split: outcome.splits)
  show ?thesis
    using DeliverTxAsync_frame[OF r i, of ?s'] r i e c' st by simp
qed

text \<open>
  C9. In every run, for a submission to either pipeline (queue \<open>q\<close>, capacity 32) that
  has reached its enqueue: while the queue is full its step is blocked (it neither goes
  on nor fails); as soon as the queue has room its step appends its item at the tail of
  the queue and the submission goes on; a receive of the worker leaves the submission at
  its enqueue and the queue with room. And a submission that has returned has enqueued
  its item, which then is in the queue or was received by the worker: no request is
  dropped.
\<close>

theorem backpressure:
  assumes "reachable A a s" "Invoked n m \<in> set (trace s)" "queue_of m = Some q"
  shows "capacity q = 32 \<and>
    (cont s (Host n) = Send q # k \<and> capacity q \<le> length (chan s q) \<longrightarrow>
       blocked (step A s (Run (Host n)))) \<and>
    (cont s (Host n) = Send q # k \<and> length (chan s q) < capacity q \<longrightarrow>
       (\<exists>s'. step A s (Run (Host n)) = Next s' \<and> chan s' q = chan s q @ [n] \<and>
          cont s' (Host n) = k)) \<and>
    (cont s (Host n) = Send q # k \<and> cont s (Worker q) = worker q \<and>
       step A s (Run (Worker q)) = Next s1 \<longrightarrow>
       cont s1 (Host n) = Send q # k \<and> length (chan s1 q) < capacity q \<and>
       chan s q = wcur s1 q # chan s1 q) \<and>
    (Return \<in> set (acts (Host n) (trace s)) \<longrightarrow> n \<in> set (recvd q (trace s) @ chan s q))"
proof (intro conjI impI)
  show "capacity q = 32" by (simp add: capacity_def WorkerPoolQueue_def)
next
  assume "cont s (Host n) = Send q # k \<and> capacity q \<le> length (chan s q)"
  then show "blocked (step A s (Run (Host n)))" by simp
next
  assume "cont s (Host n) = Send q # k \<and> length (chan s q) < capacity q"
  then show "\<exists>s'. step A s (Run (Host n)) = Next s' \<and> chan s' q = chan s q @ [n] \<and>
          cont s' (Host n) = k"
    by (simp add: emit_def)
next
  assume h: "cont s (Host n) = Send q # k \<and> cont s (Worker q) = worker q \<and>
       step A s (Run (Worker q)) = Next s1"
  have cap: "length (chan s q) \<le> capacity q"
    using inv_cap_reachable[OF assms(1)] by (simp add: inv_cap_def)
  from h have "cont s (Worker q) = Recv q # tl (worker q)" by (simp add: worker_eq)
  with h have "cont s1 (Host n) = Send q # k \<and> length (chan s1 q) < capacity q \<and>
       chan s q = wcur s1 q # chan s1 q"
    using cap by (auto simp: emit_def split: list.splits)
  then show "cont s1 (Host n) = Send q # k" "length (chan s1 q) < capacity q"
    "chan s q = wcur s1 q # chan s1 q"
    by simp_all
next
  assume ret: "Return \<in> set (acts (Host n) (trace s))"
  have b: "acts (Host n) (trace s) @ cont s (Host n) = body m"
    using inv_host_reachable[OF assms(1)] assms(2) by (simp add: inv_host_def)
  then have "cont s (Host n) = []" using ret by (rule body_returned)
  then have "Send q \<in> set (acts (Host n) (trace s))"
    using b body_has_Send[OF assms(3)] by simp
  then obtain i where "Did (Host n) (Send q) i \<in> set (trace s)" by (auto simp: acts_mem)
  moreover from this have "i = n"
    using inv_cap_reachable[OF assms(1)] unfolding inv_cap_def by blast
  ultimately have "n \<in> set (sent q (trace s))" by (auto simp: sent_mem)
  moreover have "inv_q s" using invs1_reachable[OF assms(1)] by (simp add: invs1_def)
  ultimately show "n \<in> set (recvd q (trace s) @ chan s q)" by (simp add: inv_q_def)
qed

theorem backpressure_witness:
  "reachable demoApp 0 (after demoApp 0 sched_full_queue) \<and>
   Invoked 32 DeliverTxAsync \<in> set (trace (after demoApp 0 sched_full_queue)) \<and>
   queue_of DeliverTxAsync = Some deliverTxQueue \<and>
   cont (after demoApp 0 sched_full_queue) (Host 32) =
     Send deliverTxQueue # [WgAdd, Schedule deliverTxPool, Return] \<and>
   capacity deliverTxQueue \<le> length (chan (after demoApp 0 sched_full_queue) deliverTxQueue) \<and>
   blocked (step demoApp (after demoApp 0 sched_full_queue) (Run (Host 32))) \<and>
   completes demoApp 0 (sched_full_queue @ [Run (Worker deliverTxQueue), Run (Host 32)]) \<and>
   chan (after demoApp 0 (sched_full_queue @ [Run (Worker deliverTxQueue), Run (Host 32)]))
     deliverTxQueue = [1..<33]"
proof -
  let ?s = "after demoApp 0 sched_full_queue"
  have c: "completes demoApp 0 sched_full_queue" by code_simp
  have r: "reachable demoApp 0 ?s" using c by (rule completes_reachable)
  have i: "Invoked 32 DeliverTxAsync \<in> set (trace ?s)" by code_simp
  have q: "queue_of DeliverTxAsync = Some deliverTxQueue" by simp
  have e: "cont ?s (Host 32) = Send deliverTxQueue # [WgAdd, Schedule deliverTxPool, Return]"
    "capacity deliverTxQueue \<le> length (chan ?s deliverTxQueue)"
    "completes demoApp 0 (sched_full_queue @ [Run (Worker deliverTxQueue), Run (Host 32)])"
    "chan (after demoApp 0 (sched_full_queue @ [Run (Worker deliverTxQueue), Run (Host 32)]))
     deliverTxQueue = [1..<33]"
    by code_simp+
  show ?thesis
    using backpressure[OF r i q, of "[WgAdd, Schedule deliverTxPool, Return]"] r i e by simp
qed

text \<open>
  C10. In every run the in-flight counter is never decremented below zero: no step
  panics on a negative counter, and the counter is the number of increments minus the
  number of decrements. For every item \<open>n\<close> of either pipeline, in the order of the
  run: the increment by its submission comes before the release of its gate by its
  pre-validation closure, that before the acquisition of its gate by a worker, and
  that before the decrement by that worker; so the increment comes before the
  decrement, also for \<^verbatim>\<open>DeliverTxAsync\<close>, which enqueues before it increments. A gate is
  released only by the closure of its item and by a worker that has acquired it.
\<close>

theorem increment_before_decrement:
  assumes "reachable A a s"
  shows "step A s l \<noteq> Panic NegativeWgCommit \<and>
    wgCommit s + length (dones (trace s)) = length (adds (trace s)) \<and>
    precedes (Did (Host n) WgAdd n) (Did (Task n) MtxUnlock n) (trace s) \<and>
    precedes (Did (Task n) MtxUnlock n) (Did (Worker q) MtxLock n) (trace s) \<and>
    precedes (Did (Worker q) MtxLock n) (Did (Worker q) WgDone n) (trace s) \<and>
    precedes (Did (Host n) WgAdd n) (Did (Worker q) WgDone n) (trace s) \<and>
    precedes (Did (Worker q) MtxLock n) (Did (Worker q) MtxUnlock n) (trace s) \<and>
    (Did t MtxUnlock n \<in> set (trace s) \<longrightarrow> t = Task n \<or> (\<exists>q'. t = Worker q'))"
proof -
  have i: "invs2 s" using assms by (rule invs2_reachable)
  have c: "inv_cnt s" using assms by (rule inv_cnt_reachable)
  from i have h: "inv_host s" "inv_prog s" by (simp_all add: invs2_def invs1_def)
  have 1: "step A s l \<noteq> Panic NegativeWgCommit"
  proof
    assume p: "step A s l = Panic NegativeWgCommit"
    show False
    proof (cases l)
      case (Invoke m x)
      with p show ?thesis by simp
    next
      case (Attach j)
      with p show ?thesis by (simp split: if_splits)
    next
      case (Run u)
      with p obtain b k where bk: "cont s u = b # k"
        and ex: "exec A u b (s\<lparr>cont := (cont s)(u := k)\<rparr>) = Panic NegativeWgCommit"
        by (cases "cont s u"; simp split: outcome.splits)
      have b: "b = WgDone" using ex by (rule exec_Panic_wg)
      from h bk obtain q' where u: "u = Worker q'"
        by (rule who_WgDone) (use b in simp)
      have "0 < wgCommit s" using wg_pos[OF i c] bk b u by simp
      then show ?thesis using ex b by simp
    qed
  qed
  show ?thesis using 1 c unfolding inv_cnt_def by blast
qed

theorem increment_before_decrement_witness:
  "reachable demoApp 0 (after demoApp 0 sched_early_receive) \<and>
   sent deliverTxQueue (trace (after demoApp 0 sched_early_receive)) = [1] \<and>
   recvd deliverTxQueue (trace (after demoApp 0 sched_early_receive)) = [1] \<and>
   adds (trace (after demoApp 0 sched_early_receive)) = [] \<and>
   blocked (step demoApp (after demoApp 0 sched_early_receive) (Run (Worker deliverTxQueue))) \<and>
   reachable demoApp 0 (after demoApp 0 sched_early_receive_done) \<and>
   adds (trace (after demoApp 0 sched_early_receive_done)) = [1] \<and>
   dones (trace (after demoApp 0 sched_early_receive_done)) = [1] \<and>
   wgCommit (after demoApp 0 sched_early_receive_done) = 0 \<and>
   Did (Worker deliverTxQueue) WgDone 1 \<in> set (trace (after demoApp 0 sched_early_receive_done)) \<and>
   step demoApp (after demoApp 0 sched_early_receive_done) (Run (Worker deliverTxQueue))
     \<noteq> Panic NegativeWgCommit \<and>
   precedes (Did (Host 1) WgAdd 1) (Did (Worker deliverTxQueue) WgDone 1)
     (trace (after demoApp 0 sched_early_receive_done))"
proof -
  have c: "completes demoApp 0 sched_early_receive" "completes demoApp 0 sched_early_receive_done"
    by code_simp+
  have r: "reachable demoApp 0 (after demoApp 0 sched_early_receive)"
    "reachable demoApp 0 (after demoApp 0 sched_early_receive_done)"
    using c by (simp_all add: completes_reachable)
  have e: "sent deliverTxQueue (trace (after demoApp 0 sched_early_receive)) = [1]"
    "recvd deliverTxQueue (trace (after demoApp 0 sched_early_receive)) = [1]"
    "adds (trace (after demoApp 0 sched_early_receive)) = []"
    "blocked (step demoApp (after demoApp 0 sched_early_receive) (Run (Worker deliverTxQueue)))"
    "adds (trace (after demoApp 0 sched_early_receive_done)) = [1]"
    "dones (trace (after demoApp 0 sched_early_receive_done)) = [1]"
    "wgCommit (after demoApp 0 sched_early_receive_done) = 0"
    "Did (Worker deliverTxQueue) WgDone 1 \<in> set (trace (after demoApp 0 sched_early_receive_done))"
    by code_simp+
  show ?thesis
    using increment_before_decrement[OF r(2), of "Run (Worker deliverTxQueue)" 1 deliverTxQueue]
      r e by simp
qed

text \<open>
  C4. The loop of an ordered worker takes the exclusivity lock in write mode once per
  turn, and the write of the response slot, the done-marking, the decrement of the
  in-flight counter and the two callbacks all stand between that acquisition and its
  release. In every run, a worker about to execute one of them holds the lock in write
  mode and no other goroutine holds it in any mode. And when the counter has been zero
  at some moment of a run and later a host goroutine is inside a write-mode call of the
  application, in particular inside \<^verbatim>\<open>Commit\<close>, then every item the counter had been
  incremented for by that moment is settled: a worker has decremented the counter for
  it, has executed the per-request callback step and has fired the global callback for
  it, and the item is marked done and has a response.
\<close>

theorem settled_before_commit:
  assumes "reachable A a s0" "run A s0 ls = Next s"
  shows
   "(\<exists>pre sec. worker q = pre @ RWLock # sec @ [RWUnlock, Again] \<and>
       \<not> list_ex is_rw pre \<and> \<not> list_ex is_rw sec \<and> filter settling pre = [] \<and>
       filter settling sec =
         [SetResponse (msg_of q), ReqResDone, WgDone, ReqCallback, GlobalCallback]) \<and>
    (\<forall>x k'. cont s (Worker q) = x # k' \<and> settling x \<longrightarrow>
       holdsW (cont s (Worker q)) \<and> rw_writer s \<and>
       (\<forall>u. u \<noteq> Worker q \<longrightarrow> \<not> holdsW (cont s u) \<and> \<not> holdsR (cont s u))) \<and>
    (wgCommit s0 = 0 \<and> cont s (Host j) = AppRet c # k \<and> mode c = Exclusive \<and>
       n \<in> set (adds (trace s0)) \<longrightarrow>
       (\<exists>q'. pipeline s n q' \<and> Did (Worker q') WgDone n \<in> set (trace s0) \<and>
          Did (Worker q') ReqCallback n \<in> set (trace s) \<and>
          Did (Worker q') GlobalCallback n \<in> set (trace s) \<and> n \<in> set (gcbs q' (trace s))) \<and>
       is_done (items s n) \<and> resp (items s n) \<noteq> None)"
proof -
  have r: "reachable A a s" using assms by (rule reachable_run)
  have i: "invs2 s" using r by (rule invs2_reachable)
  have i0: "invs2 s0" using assms(1) by (rule invs2_reachable)
  from i have h: "inv_wf s" "inv_rw s" "inv_prog s" by (simp_all add: invs2_def invs1_def)
  have excl: "\<not> holdsW (cont s u) \<and> \<not> holdsR (cont s u)"
    if w: "holdsW (cont s t)" and ne: "u \<noteq> t" for t u
  proof -
    have nW: "\<not> holdsW (cont s u)" using w ne h(2) by (auto simp: inv_rw_def)
    have "rw_writer s" using w h(2) by (auto simp: inv_rw_def)
    then have "card {v. holdsR (cont s v)} = 0" "finite {v. holdsR (cont s v)}"
      using h(2) by (auto simp: inv_rw_def)
    then have "\<not> holdsR (cont s u)" by auto
    then show ?thesis using nW by simp
  qed
  have 1: "\<exists>pre sec. worker q = pre @ RWLock # sec @ [RWUnlock, Again] \<and>
       \<not> list_ex is_rw pre \<and> \<not> list_ex is_rw sec \<and> filter settling pre = [] \<and>
       filter settling sec =
         [SetResponse (msg_of q), ReqResDone, WgDone, ReqCallback, GlobalCallback]"
    by (intro exI[of _ "[Recv q, MtxLock, MtxUnlock]"]
        exI[of _ "[When ResponseIsNil 3, AppCall (real_call q), AppRet (real_call q),
          SetResponse (msg_of q), ReqResDone, WgDone, ReqCallback, GlobalCallback]"])
      (simp add: worker_eq)
  have 2: "holdsW (cont s (Worker q)) \<and> rw_writer s \<and>
       (\<forall>u. u \<noteq> Worker q \<longrightarrow> \<not> holdsW (cont s u) \<and> \<not> holdsR (cont s u))"
    if c: "cont s (Worker q) = x # k'" and x: "settling x" for x k'
  proof -
    have "suffix (x # k') (worker q)" using h(3) c unfolding inv_prog_def by metis
    then have w: "holdsW (cont s (Worker q))" unfolding c using x by (rule worker_settling)
    then have "rw_writer s" using h(2) by (auto simp: inv_rw_def)
    then show ?thesis using w excl[OF w] by blast
  qed
  have 3: "(\<exists>q'. pipeline s n q' \<and> Did (Worker q') WgDone n \<in> set (trace s0) \<and>
          Did (Worker q') ReqCallback n \<in> set (trace s) \<and>
          Did (Worker q') GlobalCallback n \<in> set (trace s) \<and> n \<in> set (gcbs q' (trace s))) \<and>
       is_done (items s n) \<and> resp (items s n) \<noteq> None"
    if z: "wgCommit s0 = 0" and c: "cont s (Host j) = AppRet c # k" and m: "mode c = Exclusive"
      and n: "n \<in> set (adds (trace s0))"
  proof -
    from zero_all_done[OF i0 inv_cnt_reachable[OF assms(1)] z n]
    obtain q' where d0: "n \<in> set (wdid q' WgDone (trace s0))" by blast
    then have e0: "Did (Worker q') WgDone n \<in> set (trace s0)" unfolding wdid_mem .
    have "set (trace s0) \<subseteq> set (trace s)"
      using run_trace_prefix[OF assms(2)] by (rule set_mono_prefix)
    then have d: "n \<in> set (wdid q' WgDone (trace s))" using e0 unfolding wdid_mem by blast
    have "wf (cont s (Host j))" using h(1) unfolding inv_wf_def by blast
    then have "holdsW (cont s (Host j))" using inside_holds(1) c m by simp
    then have nw: "\<not> holdsW (cont s (Worker q'))" using excl[of "Host j" "Worker q'"] by simp
    note so = settled_outside[OF i inv_res_reachable[OF r] d nw]
    show ?thesis using so e0 unfolding wdid_mem by blast
  qed
  show ?thesis using 1 2 3 by blast
qed

theorem settled_before_commit_witness:
  "reachable demoApp 0 (after demoApp 0 sched_settling) \<and>
   cont (after demoApp 0 sched_settling) (Worker checkTxQueue) =
     [WgDone, ReqCallback, GlobalCallback, RWUnlock, Again] \<and>
   holdsW (cont (after demoApp 0 sched_settling) (Worker checkTxQueue)) \<and>
   rw_writer (after demoApp 0 sched_settling) \<and>
   reachable demoApp 0 (after demoApp 0 sched_settled) \<and>
   wgCommit (after demoApp 0 sched_settled) = 0 \<and>
   adds (trace (after demoApp 0 sched_settled)) = [1] \<and>
   cont (after demoApp 0 (sched_settled @ sched_commit_begins)) (Host 2) =
     [AppRet Commit, Callback MsgCommit, RWUnlock, Unlock commitLock, Return] \<and>
   gcbs checkTxQueue (trace (after demoApp 0 (sched_settled @ sched_commit_begins))) = [1] \<and>
   is_done (items (after demoApp 0 (sched_settled @ sched_commit_begins)) 1) \<and>
   resp (items (after demoApp 0 (sched_settled @ sched_commit_begins)) 1) \<noteq> None"
proof -
  have c: "completes demoApp 0 sched_settling" "completes demoApp 0 sched_settled"
    "completes demoApp 0 (sched_settled @ sched_commit_begins)"
    by code_simp+
  have r: "reachable demoApp 0 (after demoApp 0 sched_settling)"
    "reachable demoApp 0 (after demoApp 0 sched_settled)"
    using c by (simp_all add: completes_reachable)
  have r0: "run demoApp (after demoApp 0 sched_settling) [] = Next (after demoApp 0 sched_settling)"
    by simp
  have r1: "run demoApp (after demoApp 0 sched_settled) sched_commit_begins =
      Next (after demoApp 0 (sched_settled @ sched_commit_begins))"
    using c(3) by (rule run_after)
  have e: "cont (after demoApp 0 sched_settling) (Worker checkTxQueue) =
     [WgDone, ReqCallback, GlobalCallback, RWUnlock, Again]"
    "wgCommit (after demoApp 0 sched_settled) = 0"
    "adds (trace (after demoApp 0 sched_settled)) = [1]"
    "cont (after demoApp 0 (sched_settled @ sched_commit_begins)) (Host 2) =
     [AppRet Commit, Callback MsgCommit, RWUnlock, Unlock commitLock, Return]"
    "gcbs checkTxQueue (trace (after demoApp 0 (sched_settled @ sched_commit_begins))) = [1]"
    by code_simp+
  show ?thesis
    using settled_before_commit[OF r(1) r0, of checkTxQueue 0 Commit "[]" 0]
      settled_before_commit[OF r(2) r1, of checkTxQueue 2 Commit
        "[Callback MsgCommit, RWUnlock, Unlock commitLock, Return]" 1]
      r e by simp
qed

text \<open>
  C6. In every run, what an invocation of \<^verbatim>\<open>CheckTxAsync\<close> has executed so far,
  followed by what it has left to execute, is the admission protocol in the claimed
  order: the item with its gate held, the admission mutex, the arbitration mutex, the
  commit mutex, the arbitration mutex released, the enqueue, the increment of the
  in-flight counter, the commit mutex and the admission mutex released, and only then
  the scheduling of the pre-validation and the return. Each of its steps has its
  effect on the state: an acquisition finds the mutex free and locks it, and blocks
  while it is locked; a release unlocks a mutex the invocation holds; the enqueue
  appends the item to the validate-class queue and the increment adds one to the
  counter, both while the invocation, and no other, holds the commit mutex and the
  admission mutex, the arbitration mutex being released; the scheduling happens when
  the invocation holds none of the three mutexes and has enqueued and counted its item,
  and starts the closure of the item, which did not exist before; and no step changes
  a mutex, the queues, the counter or the closure other than so.
\<close>

theorem CheckTxAsync_step_order:
  assumes "reachable A a s" "Invoked n CheckTxAsync \<in> set (trace s)"
  shows "acts (Host n) (trace s) @ cont s (Host n) =
      [NewReqRes MsgCheckTx, NewMtx, MtxLock,
       Lock checkTxLowLock, Lock checkTxMidLock, Lock commitLock, Unlock checkTxMidLock,
       Send checkTxQueue, WgAdd,
       Unlock commitLock, Unlock checkTxLowLock,
       Schedule checkTxPool, Return] \<and>
    (cont s (Host n) = b # k \<and> step A s (Run (Host n)) = Next s' \<longrightarrow>
       cont s' (Host n) = k \<and>
       (\<forall>m. b = Lock m \<longrightarrow>
          \<not> mutexes s m \<and> mutexes s' = (mutexes s)(m := True) \<and> holdsM m (cont s' (Host n))) \<and>
       (\<forall>m. b = Unlock m \<longrightarrow>
          mutexes s m \<and> holdsM m (cont s (Host n)) \<and> mutexes s' = (mutexes s)(m := False)) \<and>
       ((\<forall>m. b \<noteq> Lock m \<and> b \<noteq> Unlock m) \<longrightarrow> mutexes s' = mutexes s) \<and>
       (b = Send checkTxQueue \<or> b = WgAdd \<longrightarrow>
          mutexes s commitLock \<and> mutexes s checkTxLowLock \<and>
          holdsM commitLock (cont s (Host n)) \<and> holdsM checkTxLowLock (cont s (Host n)) \<and>
          \<not> holdsM checkTxMidLock (cont s (Host n)) \<and>
          (\<forall>j. j \<noteq> n \<longrightarrow> \<not> holdsM commitLock (cont s (Host j)) \<and>
             \<not> holdsM checkTxLowLock (cont s (Host j)))) \<and>
       (b = Send checkTxQueue \<longrightarrow>
          length (chan s checkTxQueue) < capacity checkTxQueue \<and>
          chan s' = (chan s)(checkTxQueue := chan s checkTxQueue @ [n])) \<and>
       (b \<noteq> Send checkTxQueue \<longrightarrow> chan s' = chan s) \<and>
       (b = WgAdd \<longrightarrow>
          n \<in> set (sent checkTxQueue (trace s)) \<and> wgCommit s' = Suc (wgCommit s)) \<and>
       (b \<noteq> WgAdd \<longrightarrow> wgCommit s' = wgCommit s) \<and>
       (b = Schedule checkTxPool \<longrightarrow>
          (\<forall>m. \<not> holdsM m (cont s (Host n))) \<and>
          n \<in> set (sent checkTxQueue (trace s)) \<and> n \<in> set (adds (trace s)) \<and>
          cont s (Task n) = [] \<and> cont s' (Task n) = closure checkTxPool) \<and>
       (b \<noteq> Schedule checkTxPool \<longrightarrow> cont s' (Task n) = cont s (Task n)) \<and>
       (b = Return \<longrightarrow> k = [])) \<and>
    (cont s (Host n) = Lock m # k \<and> mutexes s m \<longrightarrow> blocked (step A s (Run (Host n))))"
proof -
  have i: "invs2 s" using assms(1) by (rule invs2_reachable)
  then have h: "inv_host s" "inv_cap s" "inv_gate s" by (simp_all add: invs2_def invs1_def)
  have mx: "inv_mx s" using assms(1) by (rule inv_mx_reachable)
  have bd: "acts (Host n) (trace s) @ cont s (Host n) = body CheckTxAsync"
    using h(1) assms(2) unfolding inv_host_def by blast
  have 1: "acts (Host n) (trace s) @ cont s (Host n) =
      [NewReqRes MsgCheckTx, NewMtx, MtxLock,
       Lock checkTxLowLock, Lock checkTxMidLock, Lock commitLock, Unlock checkTxMidLock,
       Send checkTxQueue, WgAdd,
       Unlock commitLock, Unlock checkTxLowLock,
       Schedule checkTxPool, Return]"
    using bd by simp
  have 3: "blocked (step A s (Run (Host n)))" if "cont s (Host n) = Lock m # k \<and> mutexes s m"
    using that by simp
  have 2: "cont s' (Host n) = k \<and>
       (\<forall>m. b = Lock m \<longrightarrow>
          \<not> mutexes s m \<and> mutexes s' = (mutexes s)(m := True) \<and> holdsM m (cont s' (Host n))) \<and>
       (\<forall>m. b = Unlock m \<longrightarrow>
          mutexes s m \<and> holdsM m (cont s (Host n)) \<and> mutexes s' = (mutexes s)(m := False)) \<and>
       ((\<forall>m. b \<noteq> Lock m \<and> b \<noteq> Unlock m) \<longrightarrow> mutexes s' = mutexes s) \<and>
       (b = Send checkTxQueue \<or> b = WgAdd \<longrightarrow>
          mutexes s commitLock \<and> mutexes s checkTxLowLock \<and>
          holdsM commitLock (cont s (Host n)) \<and> holdsM checkTxLowLock (cont s (Host n)) \<and>
          \<not> holdsM checkTxMidLock (cont s (Host n)) \<and>
          (\<forall>j. j \<noteq> n \<longrightarrow> \<not> holdsM commitLock (cont s (Host j)) \<and>
             \<not> holdsM checkTxLowLock (cont s (Host j)))) \<and>
       (b = Send checkTxQueue \<longrightarrow>
          length (chan s checkTxQueue) < capacity checkTxQueue \<and>
          chan s' = (chan s)(checkTxQueue := chan s checkTxQueue @ [n])) \<and>
       (b \<noteq> Send checkTxQueue \<longrightarrow> chan s' = chan s) \<and>
       (b = WgAdd \<longrightarrow>
          n \<in> set (sent checkTxQueue (trace s)) \<and> wgCommit s' = Suc (wgCommit s)) \<and>
       (b \<noteq> WgAdd \<longrightarrow> wgCommit s' = wgCommit s) \<and>
       (b = Schedule checkTxPool \<longrightarrow>
          (\<forall>m. \<not> holdsM m (cont s (Host n))) \<and>
          n \<in> set (sent checkTxQueue (trace s)) \<and> n \<in> set (adds (trace s)) \<and>
          cont s (Task n) = [] \<and> cont s' (Task n) = closure checkTxPool) \<and>
       (b \<noteq> Schedule checkTxPool \<longrightarrow> cont s' (Task n) = cont s (Task n)) \<and>
       (b = Return \<longrightarrow> k = [])"
    if c: "cont s (Host n) = b # k" and st: "step A s (Run (Host n)) = Next s'"
  proof -
    let ?t = "Host n"
    from st obtain a' k' s1 where ak: "cont s ?t = a' # k'"
      and ex0: "exec A ?t a' (s\<lparr>cont := (cont s)(?t := k')\<rparr>) = Next s1"
      and s': "s' = emit (Did ?t a' (cur s1 ?t)) s1"
      by (rule step_Run)
    have e: "a' = b" "k' = k" using ak c by simp_all
    note ex = ex0[unfolded e]
    have sf: "suffix (b # k) (body CheckTxAsync)" using bd c by (metis suffixI)
    note bn = body_not[OF sf]
    note bm = body_mx[OF sf]
    note ps = CheckTxAsync_positions[OF sf]
    note c1 = exec_cont_cases[OF ex]
    note em = exec_mutexes[OF ex, simplified]
    note ew = exec_wg(1)[OF ex, simplified]
    have f: "cont s' = cont s1" "mutexes s' = mutexes s1" "chan s' = chan s1"
      "wgCommit s' = wgCommit s1"
      by (simp_all add: s' emit_def)
    have g1: "cont s' (Host n) = k"
      using exec_cont_self[OF ex] bn(7,8) by (simp add: f)
    have g2: "\<not> mutexes s m \<and> mutexes s' = (mutexes s)(m := True) \<and> holdsM m (cont s' (Host n))"
      if "b = Lock m" for m
      using em(1)[OF that] bm(1)[OF that] g1 by (simp add: f(2))
    have g3: "mutexes s m \<and> holdsM m (cont s (Host n)) \<and> mutexes s' = (mutexes s)(m := False)"
      if "b = Unlock m" for m
      using em(2)[OF that] that by (simp add: f c)
    have g4: "mutexes s' = mutexes s" if "\<forall>m. b \<noteq> Lock m \<and> b \<noteq> Unlock m"
      using em(3) that by (simp add: f)
    have g5: "mutexes s commitLock \<and> mutexes s checkTxLowLock \<and>
          holdsM commitLock (cont s (Host n)) \<and> holdsM checkTxLowLock (cont s (Host n)) \<and>
          \<not> holdsM checkTxMidLock (cont s (Host n)) \<and>
          (\<forall>j. j \<noteq> n \<longrightarrow> \<not> holdsM commitLock (cont s (Host j)) \<and>
             \<not> holdsM checkTxLowLock (cont s (Host j)))"
      if "b = Send checkTxQueue \<or> b = WgAdd"
    proof -
      have hh: "holdsM commitLock (cont s (Host n))" "holdsM checkTxLowLock (cont s (Host n))"
        "\<not> holdsM checkTxMidLock (cont s (Host n))"
        using ps(1)[OF that] unfolding c by blast+
      have "mutexes s commitLock" "mutexes s checkTxLowLock"
        using mx hh unfolding inv_mx_def by blast+
      moreover have "\<not> holdsM commitLock (cont s (Host j)) \<and>
          \<not> holdsM checkTxLowLock (cont s (Host j))" if "j \<noteq> n" for j
        using mx hh that unfolding inv_mx_def by blast
      ultimately show ?thesis using hh by blast
    qed
    have g6: "length (chan s checkTxQueue) < capacity checkTxQueue \<and>
          chan s' = (chan s)(checkTxQueue := chan s checkTxQueue @ [n])"
      if "b = Send checkTxQueue"
      using exec_Send[OF ex[unfolded that]] by (simp add: f)
    have g7: "chan s' = chan s" if "b \<noteq> Send checkTxQueue"
    proof -
      have "\<forall>q. b \<noteq> Send q" using sf that by (auto simp: suffix_Cons)
      then show ?thesis using exec_chan[OF ex] bn(1) by (simp add: f)
    qed
    have sn: "n \<in> set (sent checkTxQueue (trace s))" if "Send checkTxQueue \<notin> set (b # k)"
    proof -
      have "Send checkTxQueue \<in> set (acts (Host n) (trace s))"
        using bd that unfolding c by (metis Un_iff body_has_Send queue_of.simps(1) set_append)
      then obtain i where "Did (Host n) (Send checkTxQueue) i \<in> set (trace s)"
        unfolding acts_mem by blast
      moreover from this have "i = n" using h(2) unfolding inv_cap_def by blast
      ultimately show ?thesis unfolding sent_mem by blast
    qed
    have an: "n \<in> set (adds (trace s))" if "WgAdd \<notin> set (b # k)"
    proof -
      have "WgAdd \<in> set (body CheckTxAsync)" by simp
      then have "WgAdd \<in> set (acts (Host n) (trace s))"
        using bd that unfolding c by (metis Un_iff set_append)
      then obtain i where "Did (Host n) WgAdd i \<in> set (trace s)" unfolding acts_mem by blast
      moreover from this have "i = n" using h(2) unfolding inv_cap_def by blast
      ultimately show ?thesis unfolding adds_mem by blast
    qed
    have g8: "n \<in> set (sent checkTxQueue (trace s)) \<and> wgCommit s' = Suc (wgCommit s)"
      if "b = WgAdd"
      using sn ps(4) ew that by (simp add: f)
    have g9: "wgCommit s' = wgCommit s" if "b \<noteq> WgAdd"
      using ew that bn(2) by (simp add: f)
    have g10: "(\<forall>m. \<not> holdsM m (cont s (Host n))) \<and>
          n \<in> set (sent checkTxQueue (trace s)) \<and> n \<in> set (adds (trace s)) \<and>
          cont s (Task n) = [] \<and> cont s' (Task n) = closure checkTxPool"
      if b: "b = Schedule checkTxPool"
    proof -
      have pl: "pipeline s n checkTxQueue" using assms(2) unfolding pipeline_def by auto
      then have "gate s n checkTxQueue" using h(3) unfolding inv_gate_def by blast
      then have "cont s (Task n) = []" unfolding gate_def using c b by simp
      moreover have "cont s' (Task n) = closure checkTxPool" using b by (simp add: f c1)
      ultimately show ?thesis using ps(2)[OF b] sn ps(4) an ps(5) b unfolding c by blast
    qed
    have g11: "cont s' (Task n) = cont s (Task n)" if "b \<noteq> Schedule checkTxPool"
    proof -
      have "\<forall>p. b \<noteq> Schedule p" using sf that by (auto simp: suffix_Cons)
      then show ?thesis using bn(7,8) by (cases b) (auto simp: f c1)
    qed
    show ?thesis using g1 g2 g3 g4 g5 g6 g7 g8 g9 g10 g11 ps(3) by blast
  qed
  show ?thesis using 1 2 3 by blast
qed

theorem CheckTxAsync_step_order_witness:
  "reachable demoApp 0 (after demoApp 0 sched_CheckTx_at_Send) \<and>
   Invoked 0 CheckTxAsync \<in> set (trace (after demoApp 0 sched_CheckTx_at_Send)) \<and>
   acts (Host 0) (trace (after demoApp 0 sched_CheckTx_at_Send)) =
     [NewReqRes MsgCheckTx, NewMtx, MtxLock,
      Lock checkTxLowLock, Lock checkTxMidLock, Lock commitLock, Unlock checkTxMidLock] \<and>
   cont (after demoApp 0 sched_CheckTx_at_Send) (Host 0) =
     [Send checkTxQueue, WgAdd, Unlock commitLock, Unlock checkTxLowLock,
      Schedule checkTxPool, Return] \<and>
   step demoApp (after demoApp 0 sched_CheckTx_at_Send) (Run (Host 0)) =
     Next (after demoApp 0 (sched_CheckTx_at_Send @ [Run (Host 0)])) \<and>
   mutexes (after demoApp 0 sched_CheckTx_at_Send) commitLock \<and>
   mutexes (after demoApp 0 sched_CheckTx_at_Send) checkTxLowLock \<and>
   \<not> mutexes (after demoApp 0 sched_CheckTx_at_Send) checkTxMidLock \<and>
   chan (after demoApp 0 sched_CheckTx_at_Send) checkTxQueue = [] \<and>
   chan (after demoApp 0 (sched_CheckTx_at_Send @ [Run (Host 0)])) checkTxQueue = [0] \<and>
   cont (after demoApp 0 (sched_CheckTx_at_Send @ [Run (Host 0)])) (Host 0) =
     [WgAdd, Unlock commitLock, Unlock checkTxLowLock, Schedule checkTxPool, Return] \<and>
   reachable demoApp 0 (after demoApp 0 sched_CheckTx_contended) \<and>
   cont (after demoApp 0 sched_CheckTx_contended) (Host 1) =
     [Lock checkTxLowLock, Lock checkTxMidLock, Lock commitLock, Unlock checkTxMidLock,
      Send checkTxQueue, WgAdd, Unlock commitLock, Unlock checkTxLowLock,
      Schedule checkTxPool, Return] \<and>
   mutexes (after demoApp 0 sched_CheckTx_contended) checkTxLowLock \<and>
   blocked (step demoApp (after demoApp 0 sched_CheckTx_contended) (Run (Host 1)))"
proof -
  have c: "completes demoApp 0 sched_CheckTx_at_Send"
    "completes demoApp 0 (sched_CheckTx_at_Send @ [Run (Host 0)])"
    "completes demoApp 0 sched_CheckTx_contended"
    by code_simp+
  have r: "reachable demoApp 0 (after demoApp 0 sched_CheckTx_at_Send)"
    "reachable demoApp 0 (after demoApp 0 sched_CheckTx_contended)"
    using c by (simp_all add: completes_reachable)
  have st: "step demoApp (after demoApp 0 sched_CheckTx_at_Send) (Run (Host 0)) =
     Next (after demoApp 0 (sched_CheckTx_at_Send @ [Run (Host 0)]))"
    using c(2) by (rule step_after)
  have i: "Invoked 0 CheckTxAsync \<in> set (trace (after demoApp 0 sched_CheckTx_at_Send))"
    "Invoked 1 CheckTxAsync \<in> set (trace (after demoApp 0 sched_CheckTx_contended))"
    by code_simp+
  have e: "cont (after demoApp 0 sched_CheckTx_at_Send) (Host 0) =
     [Send checkTxQueue, WgAdd, Unlock commitLock, Unlock checkTxLowLock,
      Schedule checkTxPool, Return]"
    "acts (Host 0) (trace (after demoApp 0 sched_CheckTx_at_Send)) =
     [NewReqRes MsgCheckTx, NewMtx, MtxLock,
      Lock checkTxLowLock, Lock checkTxMidLock, Lock commitLock, Unlock checkTxMidLock]"
    "\<not> mutexes (after demoApp 0 sched_CheckTx_at_Send) checkTxMidLock"
    "chan (after demoApp 0 sched_CheckTx_at_Send) checkTxQueue = []"
    "cont (after demoApp 0 sched_CheckTx_contended) (Host 1) =
     [Lock checkTxLowLock, Lock checkTxMidLock, Lock commitLock, Unlock checkTxMidLock,
      Send checkTxQueue, WgAdd, Unlock commitLock, Unlock checkTxLowLock,
      Schedule checkTxPool, Return]"
    "mutexes (after demoApp 0 sched_CheckTx_contended) checkTxLowLock"
    by code_simp+
  show ?thesis
    using CheckTxAsync_step_order[OF r(1) i(1), of "Send checkTxQueue"
        "[WgAdd, Unlock commitLock, Unlock checkTxLowLock, Schedule checkTxPool, Return]"
        "after demoApp 0 (sched_CheckTx_at_Send @ [Run (Host 0)])" commitLock]
      CheckTxAsync_step_order[OF r(2) i(2), of "Lock checkTxLowLock"
        "[Lock checkTxMidLock, Lock commitLock, Unlock checkTxMidLock,
          Send checkTxQueue, WgAdd, Unlock commitLock, Unlock checkTxLowLock,
          Schedule checkTxPool, Return]" _ checkTxLowLock]
      r i e st by simp
qed

end
